theory Spec2Isabelle
  imports Main "HOL-Library.Sublist"
begin

section \<open>Strings and characters\<close>

text \<open>
  A Python \<open>str\<close> is modelled as a \<open>string\<close> whose characters are the code points
  below 256.  The three character tests below are the ones the source relies on
  (\<open>str.strip\<close>, and the classes \<open>\d\<close> and \<open>\w\<close> of the \<open>re\<close> module on \<open>str\<close>
  patterns), restricted to that range.
\<close>

definition code_point :: "char \<Rightarrow> int" where
  "code_point c = of_char c"

definition is_space :: "char \<Rightarrow> bool" where
  "is_space c = (let n = code_point c in
     (9 \<le> n \<and> n \<le> 13) \<or> (28 \<le> n \<and> n \<le> 32) \<or> n = 133 \<or> n = 160)"

definition is_digit :: "char \<Rightarrow> bool" where
  "is_digit c = (let n = code_point c in 48 \<le> n \<and> n \<le> 57)"

definition is_word :: "char \<Rightarrow> bool" where
  "is_word c = (let n = code_point c in
     (48 \<le> n \<and> n \<le> 57) \<or> (65 \<le> n \<and> n \<le> 90) \<or> n = 95 \<or> (97 \<le> n \<and> n \<le> 122)
     \<or> n = 170 \<or> n = 178 \<or> n = 179 \<or> n = 181 \<or> n = 185 \<or> n = 186
     \<or> (188 \<le> n \<and> n \<le> 190) \<or> (192 \<le> n \<and> n \<le> 214)
     \<or> (216 \<le> n \<and> n \<le> 246) \<or> (248 \<le> n \<and> n \<le> 255))"

text \<open>\<open>s.strip()\<close>: whitespace removed at both ends.\<close>

definition strip :: "string \<Rightarrow> string" where
  "strip s = rev (dropWhile is_space (rev (dropWhile is_space s)))"

text \<open>\<open>s.endswith(suffix)\<close>.\<close>

definition endswith :: "string \<Rightarrow> string \<Rightarrow> bool" where
  "endswith s sfx = (length sfx \<le> length s \<and> drop (length s - length sfx) s = sfx)"

section \<open>Backtracking regular expressions\<close>

text \<open>
  The fragment of Python's \<open>re\<close> syntax that \<open>LOG_LINE_REGEX\<close> is written in: literal
  text, a character class, sequencing, the greedy repetitions \<open>*\<close> and \<open>+\<close>, and a
  numbered capturing group.  A non-capturing group \<open>(?:...)\<close> is plain nesting.
\<close>

datatype regex =
    Lit string
  | Cls "char \<Rightarrow> bool"
  | Seq regex regex
  | Star regex
  | Plus regex
  | Group nat regex

type_synonym groups = "nat \<rightharpoonup> string"

type_synonym cont = "groups \<Rightarrow> string \<Rightarrow> groups option"

type_synonym matcher = "groups \<Rightarrow> string \<Rightarrow> cont \<Rightarrow> groups option"

text \<open>
  The matcher is the backtracking search of \<open>re\<close>: \<open>bt r g s k\<close> matches \<open>r\<close> at the
  front of \<open>s\<close> and hands the groups and the rest of the text to the continuation
  \<open>k\<close>; when \<open>k\<close> fails, the next alternative of \<open>r\<close> is tried.  A greedy repetition
  first tries one more iteration and only then the continuation, so the first success
  found is the match \<open>re\<close> reports.  The fuel of \<open>star_bt\<close> is the length of the text:
  every iteration kept consumes at least one character, so it never runs out.
\<close>

fun star_bt :: "nat \<Rightarrow> matcher \<Rightarrow> matcher" where
  "star_bt 0 m g s k = k g s"
| "star_bt (Suc n) m g s k =
     (case m g s (\<lambda>g' s'. if length s' < length s then star_bt n m g' s' k else None) of
        Some r \<Rightarrow> Some r
      | None \<Rightarrow> k g s)"

primrec bt :: "regex \<Rightarrow> matcher" where
  "bt (Lit w) g s k = (if prefix w s then k g (drop (length w) s) else None)"
| "bt (Cls P) g s k = (case s of [] \<Rightarrow> None | c # cs \<Rightarrow> if P c then k g cs else None)"
| "bt (Seq a b) g s k = bt a g s (\<lambda>g' s'. bt b g' s' k)"
| "bt (Star a) g s k = star_bt (length s) (bt a) g s k"
| "bt (Plus a) g s k = bt a g s (\<lambda>g' s'. star_bt (length s') (bt a) g' s' k)"
| "bt (Group n a) g s k =
     bt a g s (\<lambda>g' s'. k (g'(n \<mapsto> take (length s - length s') s)) s')"

text \<open>
  \<open>pattern.match(s)\<close>: the match is anchored at the start of \<open>s\<close> and may end anywhere.
  The result is the table of captured groups, or \<open>None\<close>.
\<close>

definition re_match :: "regex \<Rightarrow> string \<Rightarrow> groups option" where
  "re_match r s = bt r Map.empty s (\<lambda>g rest. Some g)"

fun seqs :: "regex list \<Rightarrow> regex" where
  "seqs [] = Lit []"
| "seqs [r] = r"
| "seqs (r # rs) = Seq r (seqs rs)"

definition digit_or_dot :: "char \<Rightarrow> bool" where
  "digit_or_dot c = (is_digit c \<or> c = CHR ''.'')"

definition digit_dot_or_n :: "char \<Rightarrow> bool" where
  "digit_dot_or_n c = (is_digit c \<or> c = CHR ''.'' \<or> c = CHR ''n'')"

definition word_or_underscore :: "char \<Rightarrow> bool" where
  "word_or_underscore c = (is_word c \<or> c = CHR ''_'')"

text \<open>
  \<^verbatim>\<open>step:(\d+)/(\d+) (\w+):([\d\.]+)(?: [\w_]+:[\d\.]+)* train_time:([\d\.]+)ms step_avg:([\d\.n]+)ms\<close>
\<close>

definition LOG_LINE_REGEX :: regex where
  "LOG_LINE_REGEX = seqs
     [Lit ''step:'', Group 1 (Plus (Cls is_digit)), Lit ''/'', Group 2 (Plus (Cls is_digit)),
      Lit '' '', Group 3 (Plus (Cls is_word)), Lit '':'', Group 4 (Plus (Cls digit_or_dot)),
      Star (seqs [Lit '' '', Plus (Cls word_or_underscore), Lit '':'', Plus (Cls digit_or_dot)]),
      Lit '' train_time:'', Group 5 (Plus (Cls digit_or_dot)),
      Lit ''ms step_avg:'', Group 6 (Plus (Cls digit_dot_or_n)), Lit ''ms'']"

section \<open>Numeric conversions\<close>

datatype py_error = ValueError | IndexError

text \<open>
  \<open>int(s)\<close> and \<open>float(s)\<close> on the texts the classes \<open>\d\<close>, \<open>[\d\.]\<close> and
  \<open>[\d\.n]\<close> can capture.  On such a text \<open>int\<close> succeeds exactly on a non-empty run
  of digits, and \<open>float\<close> exactly on a decimal numeral: digits with at most one dot and
  at least one digit.  Every other text over these classes raises \<open>ValueError\<close>.
  \<open>Decimal m e\<close> stands for the number \<open>m / 10 ^ e\<close>, which is what a decimal
  numeral with \<open>e\<close> digits after the dot denotes.  The double that \<open>float\<close> returns
  is the rounding of that number; the rounding \<open>rnd\<close> is a parameter.  The interpreter's
  optional cap on the number of digits \<open>int\<close> accepts is not modelled.
\<close>

definition digit_val :: "char \<Rightarrow> int" where
  "digit_val c = code_point c - 48"

definition digits_val :: "string \<Rightarrow> int" where
  "digits_val s = foldl (\<lambda>a c. 10 * a + digit_val c) 0 s"

definition py_int :: "string \<Rightarrow> py_error + int" where
  "py_int s = (if s \<noteq> [] \<and> list_all is_digit s then Inr (digits_val s) else Inl ValueError)"

definition is_decimal :: "string \<Rightarrow> bool" where
  "is_decimal s = (list_all digit_or_dot s \<and> length (filter (\<lambda>c. c = CHR ''.'') s) \<le> 1
     \<and> list_ex is_digit s)"

datatype decimal = Decimal int nat

definition decimal_val :: "string \<Rightarrow> decimal" where
  "decimal_val s =
     (let ip = takeWhile (\<lambda>c. c \<noteq> CHR ''.'') s;
          fp = drop 1 (dropWhile (\<lambda>c. c \<noteq> CHR ''.'') s)
      in Decimal (digits_val (ip @ fp)) (length fp))"

definition py_float :: "(decimal \<Rightarrow> 'f) \<Rightarrow> string \<Rightarrow> py_error + 'f" where
  "py_float rnd s = (if is_decimal s then Inr (rnd (decimal_val s)) else Inl ValueError)"

section \<open>The log record parser\<close>

record 'f sample =
  step :: int
  metric_name :: string
  metric_value :: 'f
  train_time :: 'f
  step_avg :: "'f option"

text \<open>\<open>match.group(n)\<close> of a group that took part in the match.\<close>

definition group :: "groups \<Rightarrow> nat \<Rightarrow> string" where
  "group m n = (case m n of Some w \<Rightarrow> w | None \<Rightarrow> [])"

text \<open>
  The body of the metrics branch of \<open>parse_logs\<close> for one line: \<open>Inr None\<close> when the
  line does not match (nothing is appended), \<open>Inr (Some d)\<close> for the dictionary that
  is appended, \<open>Inl e\<close> when a conversion raises.
\<close>

definition parse_line :: "(decimal \<Rightarrow> 'f) \<Rightarrow> string \<Rightarrow> py_error + 'f sample option" where
  "parse_line rnd line =
     (case re_match LOG_LINE_REGEX (strip line) of
        None \<Rightarrow> Inr None
      | Some m \<Rightarrow>
          (case py_int (group m 1) of Inl e \<Rightarrow> Inl e | Inr stp \<Rightarrow>
          (case py_int (group m 2) of Inl e \<Rightarrow> Inl e | Inr total_steps \<Rightarrow>
          (case py_float rnd (group m 4) of Inl e \<Rightarrow> Inl e | Inr mv \<Rightarrow>
          (case py_float rnd (group m 5) of Inl e \<Rightarrow> Inl e | Inr tt \<Rightarrow>
          (if group m 6 = ''nan''
           then Inr (Some \<lparr>step = stp, metric_name = group m 3, metric_value = mv,
                            train_time = tt, step_avg = None\<rparr>)
           else (case py_float rnd (group m 6) of Inl e \<Rightarrow> Inl e | Inr sa \<Rightarrow>
                 Inr (Some \<lparr>step = stp, metric_name = group m 3, metric_value = mv,
                            train_time = tt, step_avg = Some sa\<rparr>))))))))"

section \<open>The run extractor and the repository scan\<close>

text \<open>
  One entry of the log directory: its name, its modification time and the list
  \<open>f.readlines()\<close> returns for it (each line with its terminator).  The type of the
  modification time is any linear order.
\<close>

record 'm log_file =
  filename :: string
  file_mtime :: 'm
  file_lines :: "string list"

record ('f, 'm) run =
  run_id :: string
  timestamp :: string
  mtime :: 'm
  code :: string
  data :: "'f sample list"

text \<open>\<open>line.strip() == '=' * 100\<close>\<close>

definition is_sentinel :: "string \<Rightarrow> bool" where
  "is_sentinel line = (strip line = replicate 100 CHR ''='')"

text \<open>
  The \<open>for line in lines\<close> loop of \<open>parse_logs\<close>, with its three variables
  \<open>in_code\<close>, \<open>code_lines\<close> and \<open>data\<close> passed along.
\<close>

fun scan_lines ::
  "(decimal \<Rightarrow> 'f) \<Rightarrow> string list \<Rightarrow> bool \<Rightarrow> string list \<Rightarrow> 'f sample list
     \<Rightarrow> py_error + (string list \<times> 'f sample list)" where
  "scan_lines rnd [] in_code code_lines dat = Inr (code_lines, dat)"
| "scan_lines rnd (line # rest) in_code code_lines dat =
     (if is_sentinel line then scan_lines rnd rest (\<not> in_code) code_lines dat
      else if in_code then scan_lines rnd rest in_code (code_lines @ [line]) dat
      else (case parse_line rnd line of
              Inl e \<Rightarrow> Inl e
            | Inr None \<Rightarrow> scan_lines rnd rest in_code code_lines dat
            | Inr (Some d) \<Rightarrow> scan_lines rnd rest in_code code_lines (dat @ [d])))"

text \<open>Lines 30 to 63: the pair \<open>(code, data)\<close> extracted from the lines of one file.\<close>

definition extract_run :: "(decimal \<Rightarrow> 'f) \<Rightarrow> string list \<Rightarrow> py_error + (string \<times> 'f sample list)" where
  "extract_run rnd lines =
     (case scan_lines rnd lines False [] [] of
        Inl e \<Rightarrow> Inl e
      | Inr (code_lines, dat) \<Rightarrow> Inr (concat code_lines, dat))"

text \<open>
  The \<open>for filename in os.listdir(LOG_DIR)\<close> loop.  \<open>fmt\<close> stands for
  \<open>datetime.fromtimestamp(mtime).strftime('%Y-%m-%d %H:%M:%S')\<close>.
\<close>

fun collect_runs ::
  "(decimal \<Rightarrow> 'f) \<Rightarrow> ('m \<Rightarrow> string) \<Rightarrow> 'm log_file list \<Rightarrow> ('f, 'm) run list
     \<Rightarrow> py_error + ('f, 'm) run list" where
  "collect_runs rnd fmt [] runs = Inr runs"
| "collect_runs rnd fmt (f # fs) runs =
     (if endswith (filename f) ''.txt'' then
        (case extract_run rnd (file_lines f) of
           Inl e \<Rightarrow> Inl e
         | Inr (c, d) \<Rightarrow>
             collect_runs rnd fmt fs
               (runs @ [\<lparr>run_id = take (length (filename f) - 4) (filename f),
                         timestamp = fmt (file_mtime f), mtime = file_mtime f,
                         code = c, data = d\<rparr>]))
      else collect_runs rnd fmt fs runs)"

text \<open>
  \<open>runs.sort(key=..., reverse=True)\<close> is a stable sort in descending order: runs with
  equal keys keep their order.
\<close>

definition sort_reverse :: "('a \<Rightarrow> 'k::linorder) \<Rightarrow> 'a list \<Rightarrow> 'a list" where
  "sort_reverse f xs = rev (sort_key f (rev xs))"

definition parse_logs ::
  "(decimal \<Rightarrow> 'f) \<Rightarrow> ('m::linorder \<Rightarrow> string) \<Rightarrow> 'm log_file list \<Rightarrow> py_error + ('f, 'm) run list" where
  "parse_logs rnd fmt files =
     (case collect_runs rnd fmt files [] of
        Inl e \<Rightarrow> Inl e
      | Inr runs \<Rightarrow> Inr (sort_reverse mtime runs))"

section \<open>The request handler and the diff memo\<close>

text \<open>
  \<open>s.splitlines(keepends=True)\<close> on code points below 256: a line ends at a line
  feed, vertical tab, form feed, carriage return (with the line feed that follows it, if
  any), file, group or record separator, or next-line character.
\<close>

definition is_linebreak :: "char \<Rightarrow> bool" where
  "is_linebreak c = (let n = code_point c in
     (10 \<le> n \<and> n \<le> 13) \<or> (28 \<le> n \<and> n \<le> 30) \<or> n = 133)"

fun splitlines_from :: "string \<Rightarrow> string \<Rightarrow> string list" where
  "splitlines_from cur [] = (if cur = [] then [] else [cur])"
| "splitlines_from cur [c] = [cur @ [c]]"
| "splitlines_from cur (c # d # cs) =
     (if code_point c = 13 \<and> code_point d = 10 then (cur @ [c, d]) # splitlines_from [] cs
      else if is_linebreak c then (cur @ [c]) # splitlines_from [] (d # cs)
      else splitlines_from (cur @ [c]) (d # cs))"

definition splitlines :: "string \<Rightarrow> string list" where
  "splitlines s = splitlines_from [] s"

text \<open>
  A request as the handler sees it: \<open>self.path\<close>, and the path and the parsed query
  (\<open>parse_qs\<close>) of \<open>urlparse(self.path)\<close>.  \<open>parse_qs\<close> drops parameters with a blank
  value, and gives every name it keeps a non-empty list of non-empty values.
\<close>

record request =
  self_path :: string
  path :: string
  query :: "string \<rightharpoonup> string list"

record 'f run_summary =
  summary_run_id :: string
  summary_timestamp :: string
  summary_data :: "'f sample list"

datatype 'f body = Html string | Json "'f run_summary list" | Plain string

text \<open>
  What the handler sends: \<open>send_response(status)\<close> with a content type and a body, or
  \<open>send_error(status, message)\<close>.
\<close>

datatype 'f response = Response int string "'f body" | SendError int string

type_synonym diff_cache = "(string \<times> string) \<rightharpoonup> string"

text \<open>\<open>query.get(key, [default])[0]\<close>\<close>

definition query_get0 ::
  "(string \<rightharpoonup> string list) \<Rightarrow> string \<Rightarrow> string option \<Rightarrow> py_error + string option" where
  "query_get0 q key dflt =
     (case q key of
        None \<Rightarrow> Inr dflt
      | Some [] \<Rightarrow> Inl IndexError
      | Some (v # vs) \<Rightarrow> Inr (Some v))"

text \<open>\<open>next((i for i, run in enumerate(runs) if run['run_id'] == run_id), None)\<close>\<close>

fun find_index :: "string \<Rightarrow> ('f, 'm) run list \<Rightarrow> nat option" where
  "find_index rid [] = None"
| "find_index rid (r # rs) =
     (if run_id r = rid then Some 0 else map_option Suc (find_index rid rs))"

text \<open>Lines 110 to 118: the baseline's split code and its label.\<close>

definition select_baseline :: "('f, 'm) run list \<Rightarrow> nat \<Rightarrow> string \<Rightarrow> string list \<times> string" where
  "select_baseline runs index compare_to =
     (if compare_to = ''previous'' \<and> index + 1 < length runs
      then (splitlines (code (runs ! (index + 1))), ''Previous Run'')
      else if compare_to = ''first'' \<and> length runs > 0
      then (splitlines (code (last runs)), ''First Run'')
      else ([], ''No Run to Compare''))"

text \<open>
  Lines 119 to 125: the body of the diff.  \<open>udiff a b fromfile tofile\<close> stands for
  \<open>difflib.unified_diff(a, b, fromfile=fromfile, tofile=tofile)\<close>.
\<close>

definition diff_body ::
  "(string list \<Rightarrow> string list \<Rightarrow> string \<Rightarrow> string \<Rightarrow> string list)
     \<Rightarrow> string list \<Rightarrow> string list \<Rightarrow> string \<Rightarrow> string" where
  "diff_body udiff prev_code current_code compare_label =
     (if prev_code \<noteq> [] then
        (let diff_text = concat (udiff prev_code current_code compare_label ''Selected Run'')
         in if diff_text = [] then ''No differences found.'' else diff_text)
      else ''No run available to compare.'')"

text \<open>Lines 109 to 127: the text computed for a request that is not in the memo.\<close>

definition compute_diff ::
  "(string list \<Rightarrow> string list \<Rightarrow> string \<Rightarrow> string \<Rightarrow> string list)
     \<Rightarrow> ('f, 'm) run list \<Rightarrow> nat \<Rightarrow> string \<Rightarrow> string" where
  "compute_diff udiff runs index compare_to =
     (let current_code = splitlines (code (runs ! index));
          (prev_code, compare_label) = select_baseline runs index compare_to
      in ''Comparing Run '' @ run_id (runs ! index) @ '' to '' @ compare_label
           @ [CHR 0x0A, CHR 0x0A] @ diff_body udiff prev_code current_code compare_label)"

definition summarise :: "('f, 'm) run \<Rightarrow> 'f run_summary" where
  "summarise r =
     \<lparr>summary_run_id = run_id r, summary_timestamp = timestamp r, summary_data = data r\<rparr>"

text \<open>
  \<open>do_GET\<close>: the files of the log directory at the time of the request and the memo
  \<open>diff_cache\<close> are passed in, the memo is returned with the answer.  An exception
  leaves the memo as it was.
\<close>

definition do_GET ::
  "(string list \<Rightarrow> string list \<Rightarrow> string \<Rightarrow> string \<Rightarrow> string list) \<Rightarrow> string
     \<Rightarrow> (decimal \<Rightarrow> 'f) \<Rightarrow> ('m::linorder \<Rightarrow> string) \<Rightarrow> 'm log_file list
     \<Rightarrow> request \<Rightarrow> diff_cache \<Rightarrow> (py_error + 'f response) \<times> diff_cache" where
  "do_GET udiff HTML_CONTENT rnd fmt files req cache =
     (if path req = ''/'' then (Inr (Response 200 ''text/html'' (Html HTML_CONTENT)), cache)
      else if path req = ''/data'' then
        (case parse_logs rnd fmt files of
           Inl e \<Rightarrow> (Inl e, cache)
         | Inr runs \<Rightarrow>
             (Inr (Response 200 ''application/json'' (Json (map summarise runs))), cache))
      else if path req = ''/diff'' then
        (case query_get0 (query req) ''run_id'' None of
           Inl e \<Rightarrow> (Inl e, cache)
         | Inr rid_opt \<Rightarrow>
        (case query_get0 (query req) ''compare_to'' (Some ''previous'') of
           Inl e \<Rightarrow> (Inl e, cache)
         | Inr cmp_opt \<Rightarrow>
        (case (rid_opt, cmp_opt) of
           (Some rid, Some compare_to) \<Rightarrow>
             (if rid \<noteq> [] then
                (case parse_logs rnd fmt files of
                   Inl e \<Rightarrow> (Inl e, cache)
                 | Inr runs \<Rightarrow>
                     (case find_index rid runs of
                        Some index \<Rightarrow>
                          (case cache (rid, compare_to) of
                             Some diff_text \<Rightarrow>
                               (Inr (Response 200 ''text/plain'' (Plain diff_text)), cache)
                           | None \<Rightarrow>
                               (let diff_text = compute_diff udiff runs index compare_to
                                in (Inr (Response 200 ''text/plain'' (Plain diff_text)),
                                    cache((rid, compare_to) \<mapsto> diff_text))))
                      | None \<Rightarrow>
                          (Inr (Response 200 ''text/plain'' (Plain ''Run ID not found.'')),
                           cache)))
              else (Inr (SendError 400 ''Bad Request: run_id parameter is missing.''), cache))
         | _ \<Rightarrow> (Inr (SendError 400 ''Bad Request: run_id parameter is missing.''), cache))))
      else (Inr (SendError 404 (''File Not Found: '' @ self_path req)), cache))"

section \<open>Vocabulary of the specification\<close>

text \<open>
  The metric grammar, in the words of the specification: the step and the total number
  of steps are integers, the metric name is a token, its value a float, any number of
  further \<open>name:value\<close> tokens follow, then the training time and the step average.
\<close>

definition extra_token :: regex where
  "extra_token =
     seqs [Lit '' '', Plus (Cls word_or_underscore), Lit '':'', Plus (Cls digit_or_dot)]"

definition is_int_text :: "string \<Rightarrow> bool" where
  "is_int_text s = (s \<noteq> [] \<and> list_all is_digit s)"

definition is_token :: "string \<Rightarrow> bool" where
  "is_token s = (s \<noteq> [] \<and> list_all is_word s)"

definition render_extra :: "string \<times> string \<Rightarrow> string" where
  "render_extra e = '' '' @ fst e @ '':'' @ snd e"

definition grammar_line ::
  "string \<Rightarrow> string \<Rightarrow> string \<Rightarrow> string \<Rightarrow> (string \<times> string) list \<Rightarrow> string \<Rightarrow> string
     \<Rightarrow> string" where
  "grammar_line stp tot name val extras tt sa =
     ''step:'' @ stp @ ''/'' @ tot @ '' '' @ name @ '':'' @ val
       @ concat (map render_extra extras)
       @ '' train_time:'' @ tt @ ''ms step_avg:'' @ sa @ ''ms''"

definition well_formed_tokens ::
  "string \<Rightarrow> string \<Rightarrow> string \<Rightarrow> string \<Rightarrow> (string \<times> string) list \<Rightarrow> string \<Rightarrow> string
     \<Rightarrow> bool" where
  "well_formed_tokens stp tot name val extras tt sa =
     (is_int_text stp \<and> is_int_text tot \<and> is_token name \<and> is_decimal val
      \<and> list_all (\<lambda>e. is_token (fst e) \<and> is_decimal (snd e)) extras
      \<and> is_decimal tt \<and> is_decimal sa)"

text \<open>
  The parser's three outcomes on a line: it raises, it yields a sample, or it yields
  nothing.  \<open>samples_of\<close> lists the samples of the lines that yield one, in order.
\<close>

definition raises :: "(decimal \<Rightarrow> 'f) \<Rightarrow> string \<Rightarrow> bool" where
  "raises rnd line = isl (parse_line rnd line)"

definition sample_of :: "(decimal \<Rightarrow> 'f) \<Rightarrow> string \<Rightarrow> 'f sample option" where
  "sample_of rnd line = (case parse_line rnd line of Inr (Some d) \<Rightarrow> Some d | _ \<Rightarrow> None)"

definition samples_of :: "(decimal \<Rightarrow> 'f) \<Rightarrow> string list \<Rightarrow> 'f sample list" where
  "samples_of rnd ls = List.map_filter (sample_of rnd) ls"

text \<open>
  A file with balanced sentinels, in the words of the specification: any number of
  blocks, each made of metrics lines, an opening sentinel line, code lines and a
  closing sentinel line, followed by the metrics lines after the last block.  Neither
  the metrics lines nor the code lines contain a sentinel line.
\<close>

record block =
  block_metrics :: "string list"
  block_open :: string
  block_code :: "string list"
  block_close :: string

definition no_sentinel :: "string list \<Rightarrow> bool" where
  "no_sentinel ls = list_all (\<lambda>l. \<not> is_sentinel l) ls"

definition well_formed_block :: "block \<Rightarrow> bool" where
  "well_formed_block b =
     (no_sentinel (block_metrics b) \<and> is_sentinel (block_open b)
      \<and> no_sentinel (block_code b) \<and> is_sentinel (block_close b))"

definition block_lines :: "block \<Rightarrow> string list" where
  "block_lines b = block_metrics b @ [block_open b] @ block_code b @ [block_close b]"

definition assemble :: "block list \<Rightarrow> string list \<Rightarrow> string list" where
  "assemble bs last_metrics = concat (map block_lines bs) @ last_metrics"

text \<open>The metrics region of such a file, and the text between its sentinel pairs.\<close>

definition metrics_of :: "block list \<Rightarrow> string list \<Rightarrow> string list" where
  "metrics_of bs last_metrics = concat (map block_metrics bs) @ last_metrics"

definition code_of :: "block list \<Rightarrow> string" where
  "code_of bs = concat (concat (map block_code bs))"

text \<open>
  A diff request that gets as far as the memo and does not find its key there (lines
  97 to 108): the selected run \<open>rid\<close> is at \<open>index\<close> of the freshly built list \<open>runs\<close>.
\<close>

definition uncached_diff_request ::
  "(decimal \<Rightarrow> 'f) \<Rightarrow> ('m::linorder \<Rightarrow> string) \<Rightarrow> 'm log_file list \<Rightarrow> request \<Rightarrow> diff_cache
     \<Rightarrow> string \<Rightarrow> string \<Rightarrow> ('f, 'm) run list \<Rightarrow> nat \<Rightarrow> bool" where
  "uncached_diff_request rnd fmt files req cache rid compare_to runs index =
     (path req = ''/diff''
      \<and> query_get0 (query req) ''run_id'' None = Inr (Some rid) \<and> rid \<noteq> []
      \<and> query_get0 (query req) ''compare_to'' (Some ''previous'') = Inr (Some compare_to)
      \<and> parse_logs rnd fmt files = Inr runs
      \<and> find_index rid runs = Some index
      \<and> cache (rid, compare_to) = None)"

text \<open>
  The key with which a request reaches the memo, if it does: the request is a diff
  request with a run id that the freshly built list contains.
\<close>

definition memo_key ::
  "(decimal \<Rightarrow> 'f) \<Rightarrow> ('m::linorder \<Rightarrow> string) \<Rightarrow> 'm log_file list \<Rightarrow> request
     \<Rightarrow> (string \<times> string) option" where
  "memo_key rnd fmt files req =
     (if path req = ''/diff'' then
        (case (query_get0 (query req) ''run_id'' None,
               query_get0 (query req) ''compare_to'' (Some ''previous''),
               parse_logs rnd fmt files) of
           (Inr (Some rid), Inr (Some compare_to), Inr runs) \<Rightarrow>
             (if rid \<noteq> [] \<and> find_index rid runs \<noteq> None then Some (rid, compare_to) else None)
         | _ \<Rightarrow> None)
      else None)"

text \<open>
  The lifetime of the process: \<open>serve_forever\<close> handles the requests one after another,
  each against the files the log directory holds at that moment, all of them on the one
  module-level \<open>diff_cache\<close>.
\<close>

fun serve ::
  "(string list \<Rightarrow> string list \<Rightarrow> string \<Rightarrow> string \<Rightarrow> string list) \<Rightarrow> string
     \<Rightarrow> (decimal \<Rightarrow> 'f) \<Rightarrow> ('m::linorder \<Rightarrow> string) \<Rightarrow> ('m log_file list \<times> request) list
     \<Rightarrow> diff_cache \<Rightarrow> (py_error + 'f response) list \<times> diff_cache" where
  "serve udiff HTML_CONTENT rnd fmt [] cache = ([], cache)"
| "serve udiff HTML_CONTENT rnd fmt ((files, req) # rest) cache =
     (let (out, cache') = do_GET udiff HTML_CONTENT rnd fmt files req cache;
          (outs, cache'') = serve udiff HTML_CONTENT rnd fmt rest cache'
      in (out # outs, cache''))"

section \<open>Example inputs\<close>

definition sentinel_line :: string where
  "sentinel_line = replicate 100 CHR ''='' @ [CHR 0x0A]"

definition example_log :: "string list" where
  "example_log =
     [''step:1/10 val_loss:2.5 train_time:100.0ms step_avg:50.0ms\<newline>'',
      sentinel_line,
      ''print(1)\<newline>'',
      sentinel_line,
      ''step:2/10 val_loss:2.1 train_time:200.0ms step_avg:100.0ms\<newline>'']"

definition example_samples :: "decimal sample list" where
  "example_samples =
     [\<lparr>step = 1, metric_name = ''val_loss'', metric_value = Decimal 25 1, train_time = Decimal 1000 1,
        step_avg = Some (Decimal 500 1)\<rparr>,
      \<lparr>step = 2, metric_name = ''val_loss'', metric_value = Decimal 21 1, train_time = Decimal 2000 1,
        step_avg = Some (Decimal 1000 1)\<rparr>]"

definition bad_float_line :: string where
  "bad_float_line = ''step:1/10 val_loss:1.2.3 train_time:100ms step_avg:1.5ms\<newline>''"

definition unterminated_log :: "string list" where
  "unterminated_log = example_log @ [sentinel_line, ''x = 2\<newline>'', ''y = 3'']"

definition example_files :: "int log_file list" where
  "example_files =
     [\<lparr>filename = ''run_b.txt'', file_mtime = 20, file_lines = [''no code here\<newline>'']\<rparr>,
      \<lparr>filename = ''notes.md'', file_mtime = 40, file_lines = [''not a log'']\<rparr>,
      \<lparr>filename = ''run_a.txt'', file_mtime = 30, file_lines = example_log\<rparr>]"

definition example_runs :: "(decimal, int) run list" where
  "example_runs =
     [\<lparr>run_id = ''run_a'', timestamp = ''t'', mtime = 30, code = ''print(1)\<newline>'',
        data = example_samples\<rparr>,
      \<lparr>run_id = ''run_b'', timestamp = ''t'', mtime = 20, code = [], data = []\<rparr>]"

definition diff_request :: "string \<Rightarrow> string \<Rightarrow> request" where
  "diff_request rid compare_to =
     \<lparr>self_path = ''/diff?run_id='' @ rid @ ''&compare_to='' @ compare_to, path = ''/diff'',
      query = [''run_id'' \<mapsto> [rid], ''compare_to'' \<mapsto> [compare_to]]\<rparr>"

section \<open>The log record parser: properties\<close>

lemma nan_line_eval:
  "(case parse_line rnd ''step:0/10 val_loss:2.5 train_time:0ms step_avg:nanms'' of
      Inr None \<Rightarrow> True | _ \<Rightarrow> False)"
  by code_simp

text \<open>
  C1.  A line of the metric grammar whose \<open>step_avg\<close> token is \<open>nan\<close> should give a
  sample whose \<open>step_avg\<close> is absent.  The class \<open>[\d\.n]\<close> of the sixth group has no
  \<open>a\<close>, so the group stops after the first \<open>n\<close>, the literal \<open>ms\<close> does not follow,
  and the line does not match at all: the parser yields no sample for it.
\<close>

theorem nan_line_yields_no_sample:
  "parse_line rnd ''step:0/10 val_loss:2.5 train_time:0ms step_avg:nanms'' = Inr None"
  using nan_line_eval [of rnd] by (auto split: sum.splits option.splits)

lemma bad_float_eval:
  "Option.is_none (re_match LOG_LINE_REGEX
      (strip ''step:1/10 val_loss:1.2.3 train_time:100ms step_avg:1.5ms'')) = False
   \<and> (case parse_line rnd ''step:1/10 val_loss:1.2.3 train_time:100ms step_avg:1.5ms'' of
        Inl ValueError \<Rightarrow> True | _ \<Rightarrow> False)"
  by code_simp

text \<open>
  C2.  A line that matches the regular expression should never make a conversion fail.
  The class \<open>[\d\.]\<close> accepts the text \<open>1.2.3\<close>, which \<open>float\<close> rejects: the line below
  matches, and the parser raises \<open>ValueError\<close> on it.
\<close>

theorem matched_line_conversion_raises:
  "re_match LOG_LINE_REGEX
      (strip ''step:1/10 val_loss:1.2.3 train_time:100ms step_avg:1.5ms'') \<noteq> None
   \<and> parse_line rnd ''step:1/10 val_loss:1.2.3 train_time:100ms step_avg:1.5ms''
       = Inl ValueError"
  using bad_float_eval [of rnd]
  by (auto split: sum.splits py_error.splits simp: Option.is_none_def)

lemma py_int_error: "py_int s = Inl e \<Longrightarrow> e = ValueError"
  by (auto simp: py_int_def split: if_splits)

lemma py_float_error: "py_float rnd s = Inl e \<Longrightarrow> e = ValueError"
  by (auto simp: py_float_def split: if_splits)

lemma parse_line_error: "parse_line rnd l = Inl e \<Longrightarrow> e = ValueError"
  unfolding parse_line_def
  by (auto split: option.splits sum.splits if_splits dest: py_int_error py_float_error)

text \<open>A successful match ends in a success of its continuation.\<close>

lemma star_bt_success:
  assumes "\<And>g s k. m g s k = Some res \<Longrightarrow> \<exists>g' s'. k g' s' = Some res"
  shows "star_bt n m g s k = Some res \<Longrightarrow> \<exists>g' s'. k g' s' = Some res"
proof (induction n arbitrary: g s)
  case 0
  then show ?case by auto
next
  case (Suc n)
  show ?case
  proof (cases "m g s (\<lambda>g' s'. if length s' < length s then star_bt n m g' s' k else None)")
    case None
    then show ?thesis using Suc.prems by auto
  next
    case (Some r)
    then have "r = res" using Suc.prems by simp
    with Some assms obtain g' s' where
      "(if length s' < length s then star_bt n m g' s' k else None) = Some res"
      by blast
    then have "star_bt n m g' s' k = Some res" by (simp split: if_splits)
    then show ?thesis by (rule Suc.IH)
  qed
qed

lemma bt_success: "bt r g s k = Some res \<Longrightarrow> \<exists>g' s'. k g' s' = Some res"
proof (induction r arbitrary: g s k)
  case (Lit w)
  then show ?case by (auto split: if_splits)
next
  case (Cls P)
  then show ?case by (auto split: list.splits if_splits)
next
  case (Seq a b)
  from Seq.prems have "bt a g s (\<lambda>g' s'. bt b g' s' k) = Some res" by simp
  then obtain g1 s1 where "bt b g1 s1 k = Some res" using Seq.IH(1) by blast
  then show ?case using Seq.IH(2) by blast
next
  case (Star a)
  from Star.prems have "star_bt (length s) (bt a) g s k = Some res" by simp
  moreover have "\<And>g s k. bt a g s k = Some res \<Longrightarrow> \<exists>g' s'. k g' s' = Some res"
    using Star.IH by blast
  ultimately show ?case using star_bt_success [where m = "bt a" and res = res] by blast
next
  case (Plus a)
  from Plus.prems have "bt a g s (\<lambda>g' s'. star_bt (length s') (bt a) g' s' k) = Some res"
    by simp
  then obtain g1 s1 where "star_bt (length s1) (bt a) g1 s1 k = Some res"
    using Plus.IH by blast
  moreover have "\<And>g s k. bt a g s k = Some res \<Longrightarrow> \<exists>g' s'. k g' s' = Some res"
    using Plus.IH by blast
  ultimately show ?case using star_bt_success [where m = "bt a" and res = res] by blast
next
  case (Group n a)
  from Group.prems
  have "bt a g s (\<lambda>g' s'. k (g'(n \<mapsto> take (length s - length s') s)) s') = Some res"
    by simp
  then show ?case using Group.IH by blast
qed

text \<open>What a group made of one character class captures.\<close>

lemma star_cls_success:
  assumes m: "\<And>g s k. m g s k = (case s of [] \<Rightarrow> None | c # cs \<Rightarrow> if P c then k g cs else None)"
  shows "star_bt n m g s k = Some res \<Longrightarrow>
     \<exists>i \<le> length s. list_all P (take i s) \<and> k g (drop i s) = Some res"
proof (induction n arbitrary: s)
  case 0
  then have "list_all P (take 0 s) \<and> k g (drop 0 s) = Some res" by simp
  then show ?case by blast
next
  case (Suc n)
  let ?k' = "\<lambda>g' s'. if length s' < length s then star_bt n m g' s' k else None"
  show ?case
  proof (cases "m g s ?k'")
    case None
    then have "k g s = Some res" using Suc.prems by simp
    then have "list_all P (take 0 s) \<and> k g (drop 0 s) = Some res" by simp
    then show ?thesis by blast
  next
    case (Some r)
    then have r: "r = res" using Suc.prems by simp
    from Some obtain c cs where s: "s = c # cs" and c: "P c"
      and "star_bt n m g cs k = Some r"
      unfolding m by (auto split: list.splits if_splits)
    with r Suc.IH obtain i where "i \<le> length cs" "list_all P (take i cs)"
      "k g (drop i cs) = Some res" by blast
    then have "Suc i \<le> length s \<and> list_all P (take (Suc i) s)
        \<and> k g (drop (Suc i) s) = Some res"
      using s c by simp
    then show ?thesis by blast
  qed
qed

lemma group_plus_cls_success:
  assumes "bt (Group n (Plus (Cls P))) g s k = Some res"
  shows "\<exists>w rest. s = w @ rest \<and> w \<noteq> [] \<and> list_all P w \<and> k (g(n \<mapsto> w)) rest = Some res"
proof -
  have m: "bt (Cls P) g s k = (case s of [] \<Rightarrow> None | c # cs \<Rightarrow> if P c then k g cs else None)"
    for g s and k :: cont
    by simp
  from assms obtain c cs where s: "s = c # cs" and c: "P c"
    and st: "star_bt (length cs) (bt (Cls P)) g cs
        (\<lambda>g' s'. k (g'(n \<mapsto> take (length s - length s') s)) s') = Some res"
    by (cases s) (auto simp del: bt.simps(2) simp add: bt.simps(2) [of P g] split: if_splits)
  from star_cls_success [where m = "bt (Cls P)", OF m st] obtain i where i: "i \<le> length cs" "list_all P (take i cs)"
    and k: "k (g(n \<mapsto> take (length s - length (drop i cs)) s)) (drop i cs) = Some res"
    by blast
  have "take (length s - length (drop i cs)) s = c # take i cs" using s i(1) by simp
  then have "s = (c # take i cs) @ drop i cs \<and> c # take i cs \<noteq> [] \<and> list_all P (c # take i cs)
      \<and> k (g(n \<mapsto> c # take i cs)) (drop i cs) = Some res"
    using s c i k by simp
  then show ?thesis by blast
qed

lemma seq_success:
  "bt (Seq a b) g s k = Some res \<Longrightarrow> \<exists>g' s'. bt b g' s' k = Some res"
  using bt_success [of a g s "\<lambda>g' s'. bt b g' s' k" res] by simp

lemma re_match_group6:
  assumes "re_match LOG_LINE_REGEX s = Some g"
  shows "\<exists>w. g 6 = Some w \<and> list_all digit_dot_or_n w"
proof -
  let ?k = "\<lambda>g rest. Some g"
  let ?tail = "Seq (Group 6 (Plus (Cls digit_dot_or_n))) (Lit ''ms'')"
  have "\<exists>g0 s0. bt ?tail g0 s0 ?k = Some g"
    using assms unfolding re_match_def LOG_LINE_REGEX_def seqs.simps
    by (blast dest!: seq_success)
  then obtain g0 s0 where "bt (Group 6 (Plus (Cls digit_dot_or_n))) g0 s0
      (\<lambda>g' s'. bt (Lit ''ms'') g' s' ?k) = Some g"
    by auto
  from group_plus_cls_success [OF this] obtain w rest where "list_all digit_dot_or_n w"
    and "bt (Lit ''ms'') (g0(6 \<mapsto> w)) rest ?k = Some g"
    by blast
  then show ?thesis by (auto split: if_splits)
qed

lemma nan_not_captured: "\<not> list_all digit_dot_or_n ''nan''"
  by code_simp

text \<open>
  No line at all gives a sample whose \<open>step_avg\<close> is absent: the sixth group is made of
  digits, dots and the letter \<open>n\<close>, so it is never the text \<open>nan\<close>.
\<close>

lemma step_avg_never_absent:
  assumes "parse_line rnd line = Inr (Some d)"
  shows "step_avg d \<noteq> None"
proof -
  from assms obtain g where g: "re_match LOG_LINE_REGEX (strip line) = Some g"
    by (auto simp: parse_line_def split: option.splits)
  from re_match_group6 [OF g] have "group g 6 \<noteq> ''nan''"
    using nan_not_captured by (auto simp: group_def)
  then show ?thesis
    using assms g by (auto simp: parse_line_def split: sum.splits)
qed

text \<open>
  How the matcher runs on a text that is made as the grammar says.  A repetition of a
  character class takes the whole run of characters of the class when the continuation
  accepts what follows, and fails when the continuation rejects every shorter run too.
\<close>

lemma star_bt_first:
  "m g s (\<lambda>g' s'. if length s' < length s then star_bt n m g' s' k else None) = Some r
     \<Longrightarrow> star_bt (Suc n) m g s k = Some r"
  by simp

lemma star_bt_second:
  "m g s (\<lambda>g' s'. if length s' < length s then star_bt n m g' s' k else None) = None
     \<Longrightarrow> star_bt (Suc n) m g s k = k g s"
  by simp

lemma star_cls_greedy:
  assumes m: "\<And>g s k. m g s k = (case s of [] \<Rightarrow> None | c # cs \<Rightarrow> if P c then k g cs else None)"
  shows "list_all P w \<Longrightarrow> s = [] \<or> \<not> P (hd s) \<Longrightarrow> k g s = Some res \<Longrightarrow> length w \<le> n
     \<Longrightarrow> star_bt n m g (w @ s) k = Some res"
proof (induction w arbitrary: n)
  case Nil
  show ?case
  proof (cases n)
    case 0
    then show ?thesis using Nil by simp
  next
    case (Suc n')
    have "m g s (\<lambda>g' s'. if length s' < length s then star_bt n' m g' s' k else None) = None"
      using Nil.prems(2) by (subst m) (auto split: list.splits)
    then show ?thesis using Nil.prems(3) Suc star_bt_second [of m g s n' k] by simp
  qed
next
  case (Cons c w)
  then obtain n' where n: "n = Suc n'" and "length w \<le> n'" by (cases n) auto
  with Cons have rec: "star_bt n' m g (w @ s) k = Some res" by simp
  have "m g ((c # w) @ s)
      (\<lambda>g' s'. if length s' < length ((c # w) @ s) then star_bt n' m g' s' k else None)
      = Some res"
    using Cons.prems(1) rec by (subst m) simp
  then show ?case unfolding n by (rule star_bt_first)
qed

lemma star_cls_fail:
  assumes m: "\<And>g s k. m g s k = (case s of [] \<Rightarrow> None | c # cs \<Rightarrow> if P c then k g cs else None)"
  shows "list_all P w \<Longrightarrow> s = [] \<or> \<not> P (hd s) \<Longrightarrow> (\<And>i. i \<le> length w \<Longrightarrow> k g (drop i w @ s) = None)
     \<Longrightarrow> star_bt n m g (w @ s) k = None"
proof (induction w arbitrary: n)
  case Nil
  have here: "k g s = None" using Nil.prems(3) [of 0] by simp
  show ?case
  proof (cases n)
    case 0
    then show ?thesis using here by simp
  next
    case (Suc n')
    have "m g s (\<lambda>g' s'. if length s' < length s then star_bt n' m g' s' k else None) = None"
      using Nil.prems(2) by (subst m) (auto split: list.splits)
    then show ?thesis using here Suc star_bt_second [of m g s n' k] by simp
  qed
next
  case (Cons c w)
  have here: "k g ((c # w) @ s) = None" using Cons.prems(3) [of 0] by simp
  have "k g (drop i w @ s) = None" if "i \<le> length w" for i
    using Cons.prems(3) [of "Suc i"] that by simp
  with Cons have rec: "star_bt n' m g (w @ s) k = None" for n' by simp
  show ?case
  proof (cases n)
    case 0
    then show ?thesis using here by simp
  next
    case (Suc n')
    have "m g ((c # w) @ s)
        (\<lambda>g' s'. if length s' < length ((c # w) @ s) then star_bt n' m g' s' k else None)
        = None"
      using Cons.prems(1) rec [of n'] by (subst m) simp
    then show ?thesis using here Suc star_bt_second [of m g "(c # w) @ s" n' k] by simp
  qed
qed

lemma cls_eq:
  "bt (Cls P) g s k = (case s of [] \<Rightarrow> None | c # cs \<Rightarrow> if P c then k g cs else None)"
  by simp

lemma plus_cls_greedy:
  assumes "w \<noteq> []" "list_all P w" "s = [] \<or> \<not> P (hd s)" "k g s = Some res"
  shows "bt (Plus (Cls P)) g (w @ s) k = Some res"
proof -
  obtain c w' where w: "w = c # w'" using assms(1) by (cases w) auto
  have "star_bt (length (w' @ s)) (bt (Cls P)) g (w' @ s) k = Some res"
    using star_cls_greedy [where m = "bt (Cls P)" and P = P, OF cls_eq, of w' s k g res] assms w
    by simp
  then show ?thesis using assms(2) w by simp
qed

lemma plus_cls_fail:
  assumes "list_all P w" "s = [] \<or> \<not> P (hd s)"
    and "\<And>i. i < length w \<Longrightarrow> k g (drop (Suc i) w @ s) = None"
  shows "bt (Plus (Cls P)) g (w @ s) k = None"
proof (cases w)
  case Nil
  then show ?thesis using assms(2) by (cases s) auto
next
  case (Cons c w')
  have "k g (drop i w' @ s) = None" if "i \<le> length w'" for i
    using assms(3) [of i] that Cons by simp
  then have "star_bt (length (w' @ s)) (bt (Cls P)) g (w' @ s) k = None"
    using star_cls_fail [where m = "bt (Cls P)" and P = P, OF cls_eq, of w' s k g] assms(1,2) Cons
    by simp
  then show ?thesis using Cons by simp
qed

lemma group_step:
  assumes "w \<noteq> []" "list_all P w" "s = [] \<or> \<not> P (hd s)"
    and "bt r (g(n \<mapsto> w)) s k = Some res"
  shows "bt (Seq (Group n (Plus (Cls P))) r) g (w @ s) k = Some res"
  using plus_cls_greedy [OF assms(1-3),
      of "\<lambda>g' s'. bt r (g'(n \<mapsto> take (length (w @ s) - length s') (w @ s))) s' k" g res]
    assms(4)
  by simp


text \<open>The characters that end a token are outside the class of the token.\<close>

lemma not_word_colon: "\<not> word_or_underscore CHR '':''" by code_simp
lemma not_dd_space: "\<not> digit_or_dot CHR '' ''" by code_simp
lemma not_dd_m: "\<not> digit_or_dot CHR ''m''" by code_simp
lemma not_ddn_m: "\<not> digit_dot_or_n CHR ''m''" by code_simp
lemma not_digit_slash: "\<not> is_digit CHR ''/''" by code_simp
lemma not_digit_space: "\<not> is_digit CHR '' ''" by code_simp
lemma not_isword_colon: "\<not> is_word CHR '':''" by code_simp
lemma train_time_word: "list_all word_or_underscore ''train_time''" by code_simp

text \<open>
  The repeated group \<open>(?: [\w_]+:[\d\.]+)*\<close>: it takes every further token, tries
  \<open>train_time:...\<close> as one more token, fails after it, and gives that one back.
\<close>

lemma extra_greedy:
  assumes "n \<noteq> []" "list_all word_or_underscore n" "x \<noteq> []" "list_all digit_or_dot x"
    and "tail = [] \<or> \<not> digit_or_dot (hd tail)" and "k g tail = Some res"
  shows "bt extra_token g ('' '' @ n @ '':'' @ x @ tail) k = Some res"
proof -
  have "bt (Plus (Cls digit_or_dot)) g (x @ tail) k = Some res"
    using assms(3-6) by (rule plus_cls_greedy)
  then have "bt (Seq (Lit '':'') (Plus (Cls digit_or_dot))) g ('':'' @ x @ tail) k = Some res"
    by simp
  then have "bt (Plus (Cls word_or_underscore)) g (n @ '':'' @ x @ tail)
      (\<lambda>g' s'. bt (Seq (Lit '':'') (Plus (Cls digit_or_dot))) g' s' k) = Some res"
    using assms(1,2) not_word_colon
    by (intro plus_cls_greedy) simp_all
  then show ?thesis by (simp add: extra_token_def)
qed

lemma extra_fail:
  assumes "list_all word_or_underscore n" "list_all digit_or_dot x"
    and "tail = [] \<or> \<not> digit_or_dot (hd tail)"
    and "\<And>i. i < length x \<Longrightarrow> k g (drop (Suc i) x @ tail) = None"
  shows "bt extra_token g ('' '' @ n @ '':'' @ x @ tail) k = None"
proof -
  let ?k1 = "\<lambda>g' s'. bt (Seq (Lit '':'') (Plus (Cls digit_or_dot))) g' s' k"
  have x: "bt (Plus (Cls digit_or_dot)) g (x @ tail) k = None"
    using assms(2-4) by (rule plus_cls_fail)
  have "?k1 g (drop (Suc i) n @ '':'' @ x @ tail) = None" if "i < length n" for i
  proof (cases "drop (Suc i) n")
    case Nil
    then show ?thesis using x by simp
  next
    case (Cons c r)
    then have "c \<in> set n" by (metis in_set_dropD list.set_intros(1))
    then have "word_or_underscore c" using assms(1) by (simp add: list_all_iff)
    then have "c \<noteq> CHR '':''" using not_word_colon by auto
    then show ?thesis using Cons by simp
  qed
  then have "bt (Plus (Cls word_or_underscore)) g (n @ '':'' @ x @ tail) ?k1 = None"
    using assms(1) not_word_colon by (intro plus_cls_fail) simp_all
  then show ?thesis by (simp add: extra_token_def)
qed

lemma extra_blocked:
  "s = [] \<or> hd s \<noteq> CHR '' '' \<Longrightarrow> bt extra_token g s k = None"
  by (cases s) (auto simp: extra_token_def)

lemma star_blocked:
  assumes "s = [] \<or> hd s \<noteq> CHR '' ''"
  shows "star_bt n (bt extra_token) g s k = k g s"
proof (cases n)
  case 0
  then show ?thesis by simp
next
  case (Suc n')
  show ?thesis unfolding Suc
    by (rule star_bt_second) (rule extra_blocked [OF assms])
qed

lemma hd_extras:
  "hd (concat (map render_extra es) @ '' train_time:'' @ r) = CHR '' ''"
  by (cases es) (simp_all add: render_extra_def)

lemma star_extras:
  assumes "list_all (\<lambda>e. fst e \<noteq> [] \<and> list_all word_or_underscore (fst e)
              \<and> snd e \<noteq> [] \<and> list_all digit_or_dot (snd e)) es"
    and tt: "list_all digit_or_dot tt"
    and k_ok: "k g ('' train_time:'' @ tt @ ''ms'' @ rest) = Some res"
    and k_space: "\<And>g s. s = [] \<or> hd s \<noteq> CHR '' '' \<Longrightarrow> k g s = None"
    and "length es \<le> n"
  shows "star_bt n (bt extra_token) g
           (concat (map render_extra es) @ '' train_time:'' @ tt @ ''ms'' @ rest) k = Some res"
  using assms(1,5)
proof (induction es arbitrary: n)
  case Nil
  let ?s = "'' train_time:'' @ tt @ ''ms'' @ rest"
  show ?case
  proof (cases n)
    case 0
    then show ?thesis using k_ok by simp
  next
    case (Suc n')
    let ?k' = "\<lambda>g' s'. if length s' < length ?s then star_bt n' (bt extra_token) g' s' k else None"
    have "?k' g (drop (Suc i) tt @ ''ms'' @ rest) = None" if "i < length tt" for i
    proof -
      let ?t = "drop (Suc i) tt @ ''ms'' @ rest"
      have "hd ?t \<noteq> CHR '' ''"
      proof (cases "drop (Suc i) tt")
        case Nil
        then show ?thesis by simp
      next
        case (Cons c r)
        then have "c \<in> set tt" by (metis in_set_dropD list.set_intros(1))
        then have "digit_or_dot c" using tt by (simp add: list_all_iff)
        then show ?thesis using Cons not_dd_space by auto
      qed
      then have "star_bt n' (bt extra_token) g ?t k = None"
        using star_blocked [of ?t n' g k] k_space [of ?t g] by simp
      then show ?thesis by simp
    qed
    then have "bt extra_token g ('' '' @ ''train_time'' @ '':'' @ tt @ ''ms'' @ rest) ?k' = None"
      using train_time_word tt not_dd_m by (intro extra_fail) simp_all
    then have "bt extra_token g ?s ?k' = None" by simp
    then have "star_bt (Suc n') (bt extra_token) g ?s k = k g ?s"
      by (rule star_bt_second)
    then show ?thesis using k_ok Suc by simp
  qed
next
  case (Cons e es)
  obtain n' where n: "n = Suc n'" and n': "length es \<le> n'"
    using Cons.prems(2) by (cases n) auto
  let ?tail = "concat (map render_extra es) @ '' train_time:'' @ tt @ ''ms'' @ rest"
  let ?s = "'' '' @ fst e @ '':'' @ snd e @ ?tail"
  let ?k' = "\<lambda>g' s'. if length s' < length ?s then star_bt n' (bt extra_token) g' s' k else None"
  have rec: "star_bt n' (bt extra_token) g ?tail k = Some res"
    using Cons.IH [OF _ n'] Cons.prems(1) by simp
  have "hd ?tail = CHR '' ''" by (rule hd_extras)
  then have blocked: "?tail = [] \<or> \<not> digit_or_dot (hd ?tail)" using not_dd_space by simp
  have "?k' g ?tail = Some res" using rec by simp
  then have "bt extra_token g ?s ?k' = Some res"
    using Cons.prems(1) blocked by (intro extra_greedy) simp_all
  then have goal: "star_bt (Suc n') (bt extra_token) g ?s k = Some res"
    by (rule star_bt_first)
  have eq: "concat (map render_extra (e # es)) @ '' train_time:'' @ tt @ ''ms'' @ rest = ?s"
    by (simp add: render_extra_def)
  show ?case unfolding n eq by (rule goal)
qed


lemma LOG_LINE_REGEX_unfold:
  "LOG_LINE_REGEX =
     Seq (Lit ''step:'') (Seq (Group 1 (Plus (Cls is_digit))) (Seq (Lit ''/'')
     (Seq (Group 2 (Plus (Cls is_digit))) (Seq (Lit '' '') (Seq (Group 3 (Plus (Cls is_word)))
     (Seq (Lit '':'') (Seq (Group 4 (Plus (Cls digit_or_dot))) (Seq (Star extra_token)
     (Seq (Lit '' train_time:'') (Seq (Group 5 (Plus (Cls digit_or_dot)))
     (Seq (Lit ''ms step_avg:'') (Seq (Group 6 (Plus (Cls digit_dot_or_n)))
     (Lit ''ms'')))))))))))))"
  by (simp add: LOG_LINE_REGEX_def extra_token_def)

lemma length_extras: "length es \<le> length (concat (map render_extra es) @ r)"
  by (induction es) (simp_all add: render_extra_def)

lemma grammar_line_match:
  assumes stp: "stp \<noteq> []" "list_all is_digit stp"
    and tot: "tot \<noteq> []" "list_all is_digit tot"
    and name: "name \<noteq> []" "list_all is_word name"
    and val: "val \<noteq> []" "list_all digit_or_dot val"
    and es: "list_all (\<lambda>e. fst e \<noteq> [] \<and> list_all word_or_underscore (fst e)
              \<and> snd e \<noteq> [] \<and> list_all digit_or_dot (snd e)) es"
    and tt: "tt \<noteq> []" "list_all digit_or_dot tt"
    and sa: "sa \<noteq> []" "list_all digit_dot_or_n sa"
  shows "re_match LOG_LINE_REGEX (grammar_line stp tot name val es tt sa @ rest)
     = Some [1 \<mapsto> stp, 2 \<mapsto> tot, 3 \<mapsto> name, 4 \<mapsto> val, 5 \<mapsto> tt, 6 \<mapsto> sa]"
proof -
  let ?k0 = "(\<lambda>g rest. Some g) :: cont"
  let ?E = "concat (map render_extra es)"
  define r6 where "r6 = Seq (Group 6 (Plus (Cls digit_dot_or_n))) (Lit ''ms'')"
  define r5b where "r5b = Seq (Lit ''ms step_avg:'') r6"
  define r5 where "r5 = Seq (Group 5 (Plus (Cls digit_or_dot))) r5b"
  define rT where "rT = Seq (Lit '' train_time:'') r5"
  define rS where "rS = Seq (Star extra_token) rT"
  define r4 where "r4 = Seq (Group 4 (Plus (Cls digit_or_dot))) rS"
  define r3c where "r3c = Seq (Lit '':'') r4"
  define r3 where "r3 = Seq (Group 3 (Plus (Cls is_word))) r3c"
  define r2s where "r2s = Seq (Lit '' '') r3"
  define r2 where "r2 = Seq (Group 2 (Plus (Cls is_digit))) r2s"
  define r1s where "r1s = Seq (Lit ''/'') r2"
  define r1 where "r1 = Seq (Group 1 (Plus (Cls is_digit))) r1s"
  have R: "LOG_LINE_REGEX = Seq (Lit ''step:'') r1"
    by (simp add: LOG_LINE_REGEX_unfold r1_def r1s_def r2_def r2s_def r3_def r3c_def r4_def
        rS_def rT_def r5_def r5b_def r6_def)
  have s6: "bt r6 g (sa @ ''ms'' @ rest) ?k0 = Some (g(6 \<mapsto> sa))" for g
    unfolding r6_def using sa not_ddn_m by (intro group_step) simp_all
  have s5b: "bt r5b g (''ms step_avg:'' @ sa @ ''ms'' @ rest) ?k0 = Some (g(6 \<mapsto> sa))" for g
    using s6 [of g] by (simp add: r5b_def)
  have s5: "bt r5 g (tt @ ''ms step_avg:'' @ sa @ ''ms'' @ rest) ?k0
      = Some (g(5 \<mapsto> tt, 6 \<mapsto> sa))" for g
    unfolding r5_def using tt not_dd_m s5b by (intro group_step) simp_all
  have sT: "bt rT g ('' train_time:'' @ tt @ ''ms'' @ '' step_avg:'' @ sa @ ''ms'' @ rest) ?k0
      = Some (g(5 \<mapsto> tt, 6 \<mapsto> sa))" for g
    using s5 [of g] by (simp add: rT_def)
  have blockedT: "bt rT g s ?k0 = None" if "s = [] \<or> hd s \<noteq> CHR '' ''" for g s
    using that by (cases s) (auto simp: rT_def)
  have star: "star_bt n (bt extra_token) g
      (?E @ '' train_time:'' @ tt @ ''ms'' @ '' step_avg:'' @ sa @ ''ms'' @ rest)
      (\<lambda>g' s'. bt rT g' s' ?k0) = Some (g(5 \<mapsto> tt, 6 \<mapsto> sa))" if "length es \<le> n" for g n
    using es tt(2) sT blockedT that by (intro star_extras) simp_all
  have sS: "bt rS g
      (?E @ '' train_time:'' @ tt @ ''ms'' @ '' step_avg:'' @ sa @ ''ms'' @ rest) ?k0
      = Some (g(5 \<mapsto> tt, 6 \<mapsto> sa))" for g
    unfolding rS_def bt.simps(3,4) by (rule star) (rule length_extras)
  have hdE: "hd (?E @ '' train_time:'' @ r) = CHR '' ''" for r by (rule hd_extras)
  have s4: "bt r4 g
      (val @ ?E @ '' train_time:'' @ tt @ ''ms'' @ '' step_avg:'' @ sa @ ''ms'' @ rest) ?k0
      = Some (g(4 \<mapsto> val, 5 \<mapsto> tt, 6 \<mapsto> sa))" for g
    unfolding r4_def using val not_dd_space sS hdE by (intro group_step) simp_all
  have s3: "bt r3 g (name @ '':'' @ val @ ?E @ '' train_time:'' @ tt @ ''ms'' @ '' step_avg:''
        @ sa @ ''ms'' @ rest) ?k0
      = Some (g(3 \<mapsto> name, 4 \<mapsto> val, 5 \<mapsto> tt, 6 \<mapsto> sa))" for g
    unfolding r3_def using name not_isword_colon s4 by (intro group_step) (simp_all add: r3c_def)
  have s2: "bt r2 g (tot @ '' '' @ name @ '':'' @ val @ ?E @ '' train_time:'' @ tt @ ''ms''
        @ '' step_avg:'' @ sa @ ''ms'' @ rest) ?k0
      = Some (g(2 \<mapsto> tot, 3 \<mapsto> name, 4 \<mapsto> val, 5 \<mapsto> tt, 6 \<mapsto> sa))" for g
    unfolding r2_def using tot not_digit_space s3 by (intro group_step) (simp_all add: r2s_def)
  have s1: "bt r1 g (stp @ ''/'' @ tot @ '' '' @ name @ '':'' @ val @ ?E @ '' train_time:'' @ tt
        @ ''ms'' @ '' step_avg:'' @ sa @ ''ms'' @ rest) ?k0
      = Some (g(1 \<mapsto> stp, 2 \<mapsto> tot, 3 \<mapsto> name, 4 \<mapsto> val, 5 \<mapsto> tt, 6 \<mapsto> sa))" for g
    unfolding r1_def using stp not_digit_slash s2 by (intro group_step) (simp_all add: r1s_def)
  show ?thesis
    using s1 [of Map.empty] by (simp add: re_match_def R grammar_line_def)
qed

lemma strip_core:
  assumes "list_all is_space lead" "list_all is_space trail" "core \<noteq> []"
    and "\<not> is_space (hd core)" "\<not> is_space (last core)"
  shows "strip (lead @ core @ trail) = core"
proof -
  have "dropWhile is_space (lead @ core @ trail) = core @ trail"
    using assms(1,3,4) by (cases core) (simp_all add: dropWhile_append list_all_iff)
  moreover have "dropWhile is_space (rev trail @ rev core) = rev core"
    using assms(2,3,5) by (cases core rule: rev_cases) (simp_all add: dropWhile_append list_all_iff)
  ultimately show ?thesis by (simp add: strip_def)
qed

lemma is_decimal_D:
  assumes "is_decimal x"
  shows "x \<noteq> []" "list_all digit_or_dot x" "list_all digit_dot_or_n x" "x \<noteq> ''nan''"
proof -
  show "x \<noteq> []" using assms by (auto simp: is_decimal_def)
  show dd: "list_all digit_or_dot x" using assms by (simp add: is_decimal_def)
  then show "list_all digit_dot_or_n x"
    by (auto simp: list_all_iff digit_or_dot_def digit_dot_or_n_def)
  have "\<not> list_all digit_or_dot ''nan''" by code_simp
  with dd show "x \<noteq> ''nan''" by auto
qed

text \<open>
  Every line of the grammar whose numbers are numerals, the \<open>step_avg\<close> included, gives
  the sample with the step, the name of the first token, its value, the training time and
  the step average that are written in the line.  White space around the line is ignored.
\<close>

lemma grammar_line_parsed:
  assumes "well_formed_tokens stp tot name val extras tt sa"
    and "list_all is_space lead" "list_all is_space trail"
  shows "parse_line rnd (lead @ grammar_line stp tot name val extras tt sa @ trail) =
     Inr (Some \<lparr>step = digits_val stp, metric_name = name, metric_value = rnd (decimal_val val),
                  train_time = rnd (decimal_val tt), step_avg = Some (rnd (decimal_val sa))\<rparr>)"
proof -
  let ?core = "grammar_line stp tot name val extras tt sa"
  from assms(1) have stp: "stp \<noteq> []" "list_all is_digit stp"
    and tot: "tot \<noteq> []" "list_all is_digit tot"
    and name: "name \<noteq> []" "list_all is_word name"
    and val: "is_decimal val" and tt: "is_decimal tt" and sa: "is_decimal sa"
    and es: "list_all (\<lambda>e. is_token (fst e) \<and> is_decimal (snd e)) extras"
    by (simp_all add: well_formed_tokens_def is_int_text_def is_token_def)
  have es': "list_all (\<lambda>e. fst e \<noteq> [] \<and> list_all word_or_underscore (fst e)
              \<and> snd e \<noteq> [] \<and> list_all digit_or_dot (snd e)) extras"
    using es is_decimal_D(1,2)
    by (auto simp: list_all_iff is_token_def word_or_underscore_def)
  have m: "re_match LOG_LINE_REGEX ?core
     = Some [1 \<mapsto> stp, 2 \<mapsto> tot, 3 \<mapsto> name, 4 \<mapsto> val, 5 \<mapsto> tt, 6 \<mapsto> sa]"
    using grammar_line_match [OF stp tot name is_decimal_D(1,2) [OF val] es'
        is_decimal_D(1,2) [OF tt] is_decimal_D(1,3) [OF sa], of "[]"]
    by simp
  have ns: "\<not> is_space CHR ''s''" by code_simp
  have "hd ?core = CHR ''s''" "last ?core = CHR ''s''" "?core \<noteq> []"
    by (simp_all add: grammar_line_def)
  then have "strip (lead @ ?core @ trail) = ?core"
    using assms(2,3) ns by (intro strip_core) simp_all
  then show ?thesis
    using m stp tot val tt sa is_decimal_D(4) [OF sa]
    by (simp add: parse_line_def group_def py_int_def py_float_def)
qed

lemma grammar_line_parsed_example:
  "parse_line (\<lambda>q. q)
     (grammar_line ''120'' ''5100'' ''val_loss'' ''3.2817'' [(''lr'', ''0.5'')] ''45000'' ''375.00''
        @ ''\<newline>'')
   = Inr (Some \<lparr>step = 120, metric_name = ''val_loss'', metric_value = Decimal 32817 4,
                train_time = Decimal 45000 0, step_avg = Some (Decimal 37500 2)\<rparr>)"
proof -
  have w: "well_formed_tokens ''120'' ''5100'' ''val_loss'' ''3.2817'' [(''lr'', ''0.5'')]
      ''45000'' ''375.00''"
    by code_simp
  have sp: "list_all is_space []" "list_all is_space ''\<newline>''" by code_simp+
  have v: "digits_val ''120'' = 120" "decimal_val ''3.2817'' = Decimal 32817 4"
    "decimal_val ''45000'' = Decimal 45000 0" "decimal_val ''375.00'' = Decimal 37500 2"
    by code_simp+
  from grammar_line_parsed [OF w sp, of "\<lambda>q. q"] v show ?thesis by simp
qed

section \<open>The run extractor: properties\<close>

lemma samples_of_append: "samples_of rnd (xs @ ys) = samples_of rnd xs @ samples_of rnd ys"
  by (simp add: samples_of_def map_filter_def)

text \<open>The loop over a stretch of metrics lines, and over a stretch of code lines.\<close>

lemma scan_metrics:
  "no_sentinel m \<Longrightarrow>
   scan_lines rnd (m @ rest) False cl dat =
     (if list_ex (raises rnd) m then Inl ValueError
      else scan_lines rnd rest False cl (dat @ samples_of rnd m))"
proof (induction m arbitrary: dat)
  case Nil
  then show ?case by (simp add: samples_of_def map_filter_simps)
next
  case (Cons l m)
  then have ns: "\<not> is_sentinel l" and m: "no_sentinel m" by (simp_all add: no_sentinel_def)
  show ?case
  proof (cases "parse_line rnd l")
    case (Inl e)
    then have "e = ValueError" by (rule parse_line_error)
    then show ?thesis using Inl ns by (simp add: raises_def)
  next
    case (Inr r)
    show ?thesis
    proof (cases r)
      case None
      then show ?thesis using Inr ns Cons.IH [OF m, of dat]
        by (simp add: raises_def samples_of_def sample_of_def map_filter_simps)
    next
      case (Some d)
      then show ?thesis using Inr ns Cons.IH [OF m, of "dat @ [d]"]
        by (simp add: raises_def samples_of_def sample_of_def map_filter_simps)
    qed
  qed
qed

lemma scan_code:
  "no_sentinel c \<Longrightarrow>
   scan_lines rnd (c @ rest) True cl dat = scan_lines rnd rest True (cl @ c) dat"
  by (induction c arbitrary: cl) (simp_all add: no_sentinel_def)

lemma scan_block:
  assumes "well_formed_block b"
  shows "scan_lines rnd (block_lines b @ rest) False cl dat =
     (if list_ex (raises rnd) (block_metrics b) then Inl ValueError
      else scan_lines rnd rest False (cl @ block_code b)
             (dat @ samples_of rnd (block_metrics b)))"
proof -
  from assms have m: "no_sentinel (block_metrics b)" and s: "is_sentinel (block_open b)"
    and c: "no_sentinel (block_code b)" and t: "is_sentinel (block_close b)"
    by (simp_all add: well_formed_block_def)
  show ?thesis
    using s t by (simp add: block_lines_def scan_metrics [OF m] scan_code [OF c])
qed

lemma scan_blocks:
  "list_all well_formed_block bs \<Longrightarrow>
   scan_lines rnd (concat (map block_lines bs) @ rest) False cl dat =
     (if list_ex (raises rnd) (concat (map block_metrics bs)) then Inl ValueError
      else scan_lines rnd rest False (cl @ concat (map block_code bs))
             (dat @ samples_of rnd (concat (map block_metrics bs))))"
proof (induction bs arbitrary: cl dat)
  case Nil
  then show ?case by (simp add: samples_of_def map_filter_simps)
next
  case (Cons b bs)
  then have b: "well_formed_block b" and bs: "list_all well_formed_block bs" by simp_all
  show ?case
    by (auto simp: scan_block [OF b] Cons.IH [OF bs] samples_of_append list_ex_iff)
qed

lemma extract_run_assemble:
  assumes "list_all well_formed_block bs" and "no_sentinel m"
  shows "extract_run rnd (assemble bs m) =
     (if list_ex (raises rnd) (metrics_of bs m) then Inl ValueError
      else Inr (code_of bs, samples_of rnd (metrics_of bs m)))"
  using scan_blocks [OF assms(1), of rnd m "[]" "[]"] scan_metrics [OF assms(2), of rnd "[]"]
  by (auto simp: extract_run_def assemble_def metrics_of_def code_of_def samples_of_append
      list_ex_iff)

lemma extract_run_unterminated:
  assumes "list_all well_formed_block bs" and "no_sentinel m" and "is_sentinel s"
    and "no_sentinel post"
  shows "extract_run rnd (assemble bs m @ s # post) =
     (if list_ex (raises rnd) (metrics_of bs m) then Inl ValueError
      else Inr (code_of bs @ concat post, samples_of rnd (metrics_of bs m)))"
  using scan_blocks [OF assms(1), of rnd "m @ s # post" "[]" "[]"]
    scan_metrics [OF assms(2), of rnd "s # post"] scan_code [OF assms(4), of rnd "[]"] assms(3)
  by (auto simp: extract_run_def assemble_def metrics_of_def code_of_def samples_of_append
      list_ex_iff)

text \<open>Every list of lines with an even number of sentinel lines is made of blocks.\<close>

lemma balanced_decompose:
  "even (length (filter is_sentinel ls)) \<Longrightarrow>
   \<exists>bs m. ls = assemble bs m \<and> list_all well_formed_block bs \<and> no_sentinel m"
proof (induction ls rule: length_induct)
  case (1 ls)
  show ?case
  proof (cases "no_sentinel ls")
    case True
    then have "ls = assemble [] ls \<and> list_all well_formed_block [] \<and> no_sentinel ls"
      by (simp add: assemble_def)
    then show ?thesis by blast
  next
    case False
    then have "\<exists>x \<in> set ls. is_sentinel x" by (auto simp: no_sentinel_def list_all_iff)
    then obtain m s r where ls: "ls = m @ s # r" and s: "is_sentinel s"
      and m: "\<forall>x \<in> set m. \<not> is_sentinel x"
      using split_list_first_prop [of ls is_sentinel] by blast
    have fm: "filter is_sentinel m = []" using m by (simp add: filter_empty_conv)
    have odd_r: "odd (length (filter is_sentinel r))"
      using "1.prems" ls s fm by simp
    then have "filter is_sentinel r \<noteq> []" by (cases "filter is_sentinel r") auto
    then have "\<exists>x \<in> set r. is_sentinel x" by (simp add: filter_empty_conv)
    then obtain c t r' where r: "r = c @ t # r'" and t: "is_sentinel t"
      and c: "\<forall>x \<in> set c. \<not> is_sentinel x"
      using split_list_first_prop [of r is_sentinel] by blast
    have fc: "filter is_sentinel c = []" using c by (simp add: filter_empty_conv)
    have ev: "even (length (filter is_sentinel r'))"
      using odd_r r t fc by simp
    have "length r' < length ls" using ls r by simp
    with "1.IH" ev obtain bs m' where r': "r' = assemble bs m'"
      and wf: "list_all well_formed_block bs" and m': "no_sentinel m'"
      by blast
    let ?b = "\<lparr>block_metrics = m, block_open = s, block_code = c, block_close = t\<rparr>"
    have "well_formed_block ?b"
      using m s c t by (simp add: well_formed_block_def no_sentinel_def list_all_iff)
    moreover have "ls = assemble (?b # bs) m'"
      using ls r r' by (simp add: assemble_def block_lines_def)
    ultimately have "ls = assemble (?b # bs) m' \<and> list_all well_formed_block (?b # bs)
        \<and> no_sentinel m'"
      using wf m' by simp
    then show ?thesis by blast
  qed
qed

lemma odd_decompose:
  assumes "odd (length (filter is_sentinel ls))"
  shows "\<exists>bs m s post. ls = assemble bs m @ s # post \<and> list_all well_formed_block bs
           \<and> no_sentinel m \<and> is_sentinel s \<and> no_sentinel post"
proof -
  from assms have "filter is_sentinel ls \<noteq> []" by (cases "filter is_sentinel ls") auto
  then have "\<exists>x \<in> set ls. is_sentinel x" by (simp add: filter_empty_conv)
  then obtain pre s post where ls: "ls = pre @ s # post" and s: "is_sentinel s"
    and post: "\<forall>x \<in> set post. \<not> is_sentinel x"
    using split_list_last_prop [of ls is_sentinel] by blast
  have fp: "filter is_sentinel post = []" using post by (simp add: filter_empty_conv)
  have "even (length (filter is_sentinel pre))" using assms ls s fp by simp
  then obtain bs m where "pre = assemble bs m" "list_all well_formed_block bs" "no_sentinel m"
    using balanced_decompose by blast
  then show ?thesis using ls s post by (auto simp: no_sentinel_def list_all_iff)
qed

text \<open>
  A file with an even number of sentinel lines is a sequence of blocks (metrics lines,
  sentinel, code lines, sentinel) followed by metrics lines.  Unless the parser raises on a
  line of its metrics region, its code is the concatenation, line terminators included,
  of the code lines of the blocks, so of the lines strictly between each pair of
  sentinels, and its samples are the samples of the metrics lines in file order.
\<close>

lemma balanced_sentinels_extract:
  assumes "even (length (filter is_sentinel lines))"
  shows "\<exists>bs m. lines = assemble bs m \<and> list_all well_formed_block bs \<and> no_sentinel m
     \<and> extract_run rnd lines =
         (if list_ex (raises rnd) (metrics_of bs m) then Inl ValueError
          else Inr (code_of bs, samples_of rnd (metrics_of bs m)))"
proof -
  from balanced_decompose [OF assms] obtain bs m where d: "lines = assemble bs m"
    "list_all well_formed_block bs" "no_sentinel m" by blast
  then show ?thesis using extract_run_assemble [of bs m rnd] by blast
qed

lemma balanced_sentinels_extract_example:
  "even (length (filter is_sentinel example_log))
   \<and> (\<exists>bs m. example_log = assemble bs m \<and> list_all well_formed_block bs \<and> no_sentinel m
        \<and> extract_run (\<lambda>q. q) example_log =
            (if list_ex (raises (\<lambda>q. q)) (metrics_of bs m) then Inl ValueError
             else Inr (code_of bs, samples_of (\<lambda>q. q) (metrics_of bs m))))
   \<and> extract_run (\<lambda>q. q) example_log = Inr (''print(1)\<newline>'', example_samples)"
proof -
  have h: "even (length (filter is_sentinel example_log))" by code_simp
  have e: "extract_run (\<lambda>q. q) example_log = Inr (''print(1)\<newline>'', example_samples)"
    by code_simp
  from balanced_sentinels_extract [OF h, of "\<lambda>q. q"] h e show ?thesis by blast
qed

text \<open>
  A file without sentinel lines has the empty code, and its samples are those of all its
  lines.  A file with an odd number of sentinel lines is a balanced file, a last sentinel
  line and the lines after it: all of these lines are appended to the code.  Again this
  is so unless the parser raises on a line of the metrics region.
\<close>

lemma zero_or_odd_sentinels_extract:
  "(no_sentinel lines \<longrightarrow>
      extract_run rnd lines =
        (if list_ex (raises rnd) lines then Inl ValueError else Inr ([], samples_of rnd lines)))
   \<and> (odd (length (filter is_sentinel lines)) \<longrightarrow>
      (\<exists>bs m s post. lines = assemble bs m @ s # post \<and> list_all well_formed_block bs
         \<and> no_sentinel m \<and> is_sentinel s \<and> no_sentinel post
         \<and> extract_run rnd lines =
             (if list_ex (raises rnd) (metrics_of bs m) then Inl ValueError
              else Inr (code_of bs @ concat post, samples_of rnd (metrics_of bs m)))))"
proof (intro conjI impI)
  assume "no_sentinel lines"
  then show "extract_run rnd lines =
        (if list_ex (raises rnd) lines then Inl ValueError else Inr ([], samples_of rnd lines))"
    using extract_run_assemble [of "[]" lines rnd]
    by (simp add: assemble_def metrics_of_def code_of_def)
next
  assume "odd (length (filter is_sentinel lines))"
  from odd_decompose [OF this] obtain bs m s post where d: "lines = assemble bs m @ s # post"
    "list_all well_formed_block bs" "no_sentinel m" "is_sentinel s" "no_sentinel post" by blast
  then show "\<exists>bs m s post. lines = assemble bs m @ s # post \<and> list_all well_formed_block bs
         \<and> no_sentinel m \<and> is_sentinel s \<and> no_sentinel post
         \<and> extract_run rnd lines =
             (if list_ex (raises rnd) (metrics_of bs m) then Inl ValueError
              else Inr (code_of bs @ concat post, samples_of rnd (metrics_of bs m)))"
    using extract_run_unterminated [of bs m s post rnd] by blast
qed

lemma zero_or_odd_sentinels_extract_example:
  "no_sentinel [''step:3/10 train_loss:1.5 train_time:300ms step_avg:100ms'', ''banner'']
   \<and> extract_run (\<lambda>q. q) [''step:3/10 train_loss:1.5 train_time:300ms step_avg:100ms'', ''banner'']
       = (if list_ex (raises (\<lambda>q. q))
               [''step:3/10 train_loss:1.5 train_time:300ms step_avg:100ms'', ''banner'']
          then Inl ValueError
          else Inr ([], samples_of (\<lambda>q. q)
                 [''step:3/10 train_loss:1.5 train_time:300ms step_avg:100ms'', ''banner'']))
   \<and> extract_run (\<lambda>q. q) [''step:3/10 train_loss:1.5 train_time:300ms step_avg:100ms'', ''banner'']
       = Inr ([], [\<lparr>step = 3, metric_name = ''train_loss'', metric_value = Decimal 15 1,
                     train_time = Decimal 300 0, step_avg = Some (Decimal 100 0)\<rparr>])
   \<and> odd (length (filter is_sentinel unterminated_log))
   \<and> (\<exists>bs m s post. unterminated_log = assemble bs m @ s # post
         \<and> list_all well_formed_block bs \<and> no_sentinel m \<and> is_sentinel s \<and> no_sentinel post
         \<and> extract_run (\<lambda>q. q) unterminated_log =
             (if list_ex (raises (\<lambda>q. q)) (metrics_of bs m) then Inl ValueError
              else Inr (code_of bs @ concat post, samples_of (\<lambda>q. q) (metrics_of bs m))))
   \<and> extract_run (\<lambda>q. q) unterminated_log
       = Inr (''print(1)\<newline>x = 2\<newline>y = 3'', example_samples)"
proof -
  let ?l0 = "[''step:3/10 train_loss:1.5 train_time:300ms step_avg:100ms'', ''banner'']"
  have h0: "no_sentinel ?l0" by code_simp
  have e0: "extract_run (\<lambda>q. q) ?l0
       = Inr ([], [\<lparr>step = 3, metric_name = ''train_loss'', metric_value = Decimal 15 1,
                     train_time = Decimal 300 0, step_avg = Some (Decimal 100 0)\<rparr>])"
    by code_simp
  have h1: "odd (length (filter is_sentinel unterminated_log))" by code_simp
  have e1: "extract_run (\<lambda>q. q) unterminated_log
       = Inr (''print(1)\<newline>x = 2\<newline>y = 3'', example_samples)"
    by code_simp
  from zero_or_odd_sentinels_extract [of ?l0 "\<lambda>q. q"]
    zero_or_odd_sentinels_extract [of unterminated_log "\<lambda>q. q"] h0 h1 e0 e1
  show ?thesis by blast
qed

lemma bad_float_line_eval:
  "Option.is_none (re_match LOG_LINE_REGEX (strip bad_float_line)) = False
   \<and> (case extract_run rnd [sentinel_line, ''x = 1\<newline>'', sentinel_line, bad_float_line] of
        Inl ValueError \<Rightarrow> True | _ \<Rightarrow> False)
   \<and> (case extract_run rnd [bad_float_line] of Inl ValueError \<Rightarrow> True | _ \<Rightarrow> False)"
  by code_simp

text \<open>
  C3.  A file with one pair of sentinel lines around the line \<open>x = 1\<close> should have
  that line as its code.  When a line of its metrics region matches the regular
  expression and holds a text that \<open>float\<close> rejects, the loop raises \<open>ValueError\<close>:
  the file has no code and no samples.
\<close>

theorem balanced_file_with_bad_float_raises:
  "even (length (filter is_sentinel
      [sentinel_line, ''x = 1\<newline>'', sentinel_line, bad_float_line]))
   \<and> re_match LOG_LINE_REGEX (strip bad_float_line) \<noteq> None
   \<and> extract_run rnd [sentinel_line, ''x = 1\<newline>'', sentinel_line, bad_float_line]
       = Inl ValueError"
proof -
  have "even (length (filter is_sentinel
      [sentinel_line, ''x = 1\<newline>'', sentinel_line, bad_float_line]))"
    by code_simp
  then show ?thesis
    using bad_float_line_eval [of rnd]
    by (auto split: sum.splits py_error.splits simp: Option.is_none_def)
qed

text \<open>
  C4.  In a file without sentinel lines every line that matches the regular expression
  should become a sample.  The one line of the file below matches, and the loop raises
  \<open>ValueError\<close> on it: the file has no code and no samples.
\<close>

theorem sentinel_free_file_with_bad_float_raises:
  "no_sentinel [bad_float_line]
   \<and> re_match LOG_LINE_REGEX (strip bad_float_line) \<noteq> None
   \<and> extract_run rnd [bad_float_line] = Inl ValueError"
proof -
  have "no_sentinel [bad_float_line]" by code_simp
  then show ?thesis
    using bad_float_line_eval [of rnd]
    by (auto split: sum.splits py_error.splits simp: Option.is_none_def)
qed

section \<open>The repository scan: properties\<close>

lemma sorted_sort_reverse: "sorted (rev (map f (sort_reverse f xs)))"
  by (simp add: sort_reverse_def rev_map)

lemma sorted_rev_nth:
  assumes "sorted (rev (map f xs))" "i < length xs" "j < length xs" "f (xs ! j) < f (xs ! i)"
  shows "i < j"
proof (rule ccontr)
  assume "\<not> i < j"
  then have "j \<le> i" by simp
  have "sorted_wrt (\<lambda>a b. f b \<le> f a) xs"
    using assms(1) by (simp add: sorted_wrt_rev sorted_wrt_map flip: rev_map)
  then have "f (xs ! i) \<le> f (xs ! j)" if "j < i"
    using that assms(2) by (simp add: sorted_wrt_iff_nth_less)
  with \<open>j \<le> i\<close> assms(4) show False
    by (cases "j = i") auto
qed

text \<open>
  C5.  The list a scan returns is sorted by modification time, descending: of any two
  runs in it, the one with the larger modification time comes first.
\<close>

theorem parse_logs_most_recent_first:
  assumes "parse_logs rnd fmt files = Inr runs"
  shows "sorted (rev (map mtime runs))
    \<and> (\<forall>i<length runs. \<forall>j<length runs. mtime (runs ! j) < mtime (runs ! i) \<longrightarrow> i < j)"
proof -
  from assms obtain rs where "runs = sort_reverse mtime rs"
    by (auto simp: parse_logs_def split: sum.splits)
  then have s: "sorted (rev (map mtime runs))" by (simp add: sorted_sort_reverse)
  then show ?thesis using sorted_rev_nth [of mtime runs] by blast
qed

theorem parse_logs_most_recent_first_witness:
  "parse_logs (\<lambda>q. q) (\<lambda>t. ''t'') example_files = Inr example_runs
   \<and> sorted (rev (map mtime example_runs))
   \<and> mtime (example_runs ! 1) < mtime (example_runs ! 0) \<and> (0::nat) < 1"
proof -
  have h: "parse_logs (\<lambda>q. q) (\<lambda>t. ''t'') example_files = Inr example_runs" by code_simp
  have m: "mtime (example_runs ! 1) < mtime (example_runs ! 0)" by code_simp
  have l: "0 < length example_runs" "1 < length example_runs" by (simp_all add: example_runs_def)
  from parse_logs_most_recent_first [OF h] h m l show ?thesis by blast
qed

section \<open>The diff engine: properties\<close>

lemma find_index_None: "find_index rid runs = None \<longleftrightarrow> rid \<notin> run_id ` set runs"
  by (induction runs) auto

lemma find_index_Some:
  "find_index rid runs = Some i \<Longrightarrow> i < length runs \<and> run_id (runs ! i) = rid"
  by (induction runs arbitrary: i) (auto split: if_splits)

lemma splitlines_empty: "splitlines [] = []"
  by (simp add: splitlines_def)

lemma do_GET_uncached:
  assumes "uncached_diff_request rnd fmt files req cache rid compare_to runs index"
  shows "do_GET udiff html rnd fmt files req cache =
     (Inr (Response 200 ''text/plain'' (Plain (compute_diff udiff runs index compare_to))),
      cache((rid, compare_to) \<mapsto> compute_diff udiff runs index compare_to))"
  using assms by (simp add: uncached_diff_request_def do_GET_def Let_def)

text \<open>
  C6.  Two runs whose log files hold no code block have the same code, the empty
  text.  A request for the diff of the newer one against the previous one finds its
  baseline (the header says \<open>Previous Run\<close>), and the body should be
  \<open>No differences found.\<close>; the handler answers \<open>No run available to compare.\<close>,
  whatever \<open>unified_diff\<close> computes.
\<close>

theorem identical_empty_code_reports_no_run:
  "parse_logs (\<lambda>q. q) (\<lambda>t::int. ''ts'')
      [\<lparr>filename = ''a.txt'', file_mtime = 2, file_lines = [''hello'']\<rparr>,
       \<lparr>filename = ''b.txt'', file_mtime = 1, file_lines = [''hello'']\<rparr>]
     = Inr [\<lparr>run_id = ''a'', timestamp = ''ts'', mtime = 2, code = [], data = []\<rparr>,
            \<lparr>run_id = ''b'', timestamp = ''ts'', mtime = 1, code = [], data = []\<rparr>]
   \<and> fst (do_GET udiff html (\<lambda>q. q) (\<lambda>t::int. ''ts'')
        [\<lparr>filename = ''a.txt'', file_mtime = 2, file_lines = [''hello'']\<rparr>,
         \<lparr>filename = ''b.txt'', file_mtime = 1, file_lines = [''hello'']\<rparr>]
        \<lparr>self_path = ''/diff?run_id=a'', path = ''/diff'', query = [''run_id'' \<mapsto> [''a'']]\<rparr>
        Map.empty)
     = Inr (Response 200 ''text/plain''
         (Plain (''Comparing Run a to Previous Run'' @ [CHR 0x0A, CHR 0x0A]
                 @ ''No run available to compare.'')))"
  by code_simp

lemma do_GET_keeps_entry:
  "cache k = Some v \<Longrightarrow> snd (do_GET udiff html rnd fmt files req cache) k = Some v"
  unfolding do_GET_def
  by (auto split: sum.splits option.splits simp: Let_def)

lemma do_GET_memo_hit:
  "cache k = Some v \<Longrightarrow> memo_key rnd fmt files req = Some k
     \<Longrightarrow> fst (do_GET udiff html rnd fmt files req cache)
          = Inr (Response 200 ''text/plain'' (Plain v))"
  unfolding do_GET_def memo_key_def
  by (auto split: sum.splits option.splits if_splits simp: Let_def)

text \<open>
  C7.  Once the memo holds a text under a key, it holds that same text under that key
  after any sequence of requests, whatever the log directory contains at each of them,
  and every request of the sequence that reaches the memo with that key is answered
  with that text.
\<close>

theorem diff_cache_append_only:
  assumes "cache k = Some v"
  shows "snd (serve udiff html rnd fmt reqs cache) k = Some v
     \<and> (\<forall>i<length reqs. memo_key rnd fmt (fst (reqs ! i)) (snd (reqs ! i)) = Some k
           \<longrightarrow> fst (serve udiff html rnd fmt reqs cache) ! i
                 = Inr (Response 200 ''text/plain'' (Plain v)))"
  using assms
proof (induction reqs arbitrary: cache)
  case Nil
  then show ?case by simp
next
  case (Cons fr reqs)
  obtain files req where fr: "fr = (files, req)" by (cases fr)
  obtain out cache' where step: "do_GET udiff html rnd fmt files req cache = (out, cache')"
    by (cases "do_GET udiff html rnd fmt files req cache")
  have keep: "cache' k = Some v"
    using do_GET_keeps_entry [of cache k v udiff html rnd fmt files req] Cons.prems step
    by simp
  have hit: "memo_key rnd fmt files req = Some k
      \<Longrightarrow> out = Inr (Response 200 ''text/plain'' (Plain v))"
    using do_GET_memo_hit [of cache k v rnd fmt files req udiff html] Cons.prems step
    by simp
  note IH = Cons.IH [of cache', simplified keep, simplified]
  show ?case
  proof (intro conjI allI impI)
    show "snd (serve udiff html rnd fmt (fr # reqs) cache) k = Some v"
      using IH step fr by (auto split: prod.splits)
  next
    fix i
    assume i: "i < length (fr # reqs)"
      and mk: "memo_key rnd fmt (fst ((fr # reqs) ! i)) (snd ((fr # reqs) ! i)) = Some k"
    show "fst (serve udiff html rnd fmt (fr # reqs) cache) ! i
            = Inr (Response 200 ''text/plain'' (Plain v))"
    proof (cases i)
      case 0
      then show ?thesis using hit mk step fr by (auto split: prod.splits)
    next
      case (Suc n)
      then show ?thesis using IH i mk step fr by (auto split: prod.splits)
    qed
  qed
qed

theorem diff_cache_append_only_witness:
  "[(''run_a'', ''first'') \<mapsto> ''stale text''] (''run_a'', ''first'') = Some ''stale text''
   \<and> snd (serve (\<lambda>a b f t. []) ''<html>'' (\<lambda>q. q) (\<lambda>t. ''t'')
            [(example_files, diff_request ''run_a'' ''previous''),
             (rev example_files, diff_request ''run_a'' ''first'')]
            [(''run_a'', ''first'') \<mapsto> ''stale text'']) (''run_a'', ''first'')
       = Some ''stale text''
   \<and> memo_key (\<lambda>q. q) (\<lambda>t. ''t'') (rev example_files) (diff_request ''run_a'' ''first'')
       = Some (''run_a'', ''first'')
   \<and> fst (serve (\<lambda>a b f t. []) ''<html>'' (\<lambda>q. q) (\<lambda>t. ''t'')
            [(example_files, diff_request ''run_a'' ''previous''),
             (rev example_files, diff_request ''run_a'' ''first'')]
            [(''run_a'', ''first'') \<mapsto> ''stale text'']) ! 1
       = Inr (Response 200 ''text/plain'' (Plain ''stale text''))"
proof -
  let ?cache = "[(''run_a'', ''first'') \<mapsto> ''stale text'']"
  let ?reqs = "[(example_files, diff_request ''run_a'' ''previous''),
             (rev example_files, diff_request ''run_a'' ''first'')]"
  have h: "?cache (''run_a'', ''first'') = Some ''stale text''" by simp
  have k: "memo_key (\<lambda>q. q) (\<lambda>t. ''t'') (fst (?reqs ! 1)) (snd (?reqs ! 1))
       = Some (''run_a'', ''first'')"
    by code_simp
  have l: "(1::nat) < length ?reqs" by simp
  from diff_cache_append_only [of ?cache "(''run_a'', ''first'')" "''stale text''"
      "\<lambda>a b f t. []" "''<html>''" "\<lambda>q. q" "\<lambda>t. ''t''" ?reqs]
    h k l
  show ?thesis by simp
qed

text \<open>
  C8.  A diff request whose \<open>run_id\<close> parameter is present (a non-blank value; a
  blank one is dropped when the query is parsed) and names no run of the freshly built
  list is answered with status 200 and the text \<open>Run ID not found.\<close>; a diff request
  without the parameter is answered with the error 400.
\<close>

theorem run_id_not_found_or_missing:
  assumes "path req = ''/diff''" and "query req ''compare_to'' \<noteq> Some []"
  shows "(query req ''run_id'' = Some (rid # others) \<and> rid \<noteq> []
            \<and> parse_logs rnd fmt files = Inr runs \<and> rid \<notin> run_id ` set runs
          \<longrightarrow> do_GET udiff html rnd fmt files req cache
                = (Inr (Response 200 ''text/plain'' (Plain ''Run ID not found.'')), cache))
       \<and> (query req ''run_id'' = None
          \<longrightarrow> do_GET udiff html rnd fmt files req cache
                = (Inr (SendError 400 ''Bad Request: run_id parameter is missing.''), cache))"
proof -
  obtain c where c: "query_get0 (query req) ''compare_to'' (Some ''previous'') = Inr (Some c)"
    using assms(2)
    by (cases "query req ''compare_to''"; cases "the (query req ''compare_to'')")
      (auto simp: query_get0_def)
  show ?thesis
    using assms(1) c
    by (auto simp: do_GET_def query_get0_def find_index_None [symmetric] split: option.splits)
qed

theorem run_id_not_found_or_missing_witness:
  "path (diff_request ''nope'' ''first'') = ''/diff''
   \<and> query (diff_request ''nope'' ''first'') ''compare_to'' \<noteq> Some []
   \<and> query (diff_request ''nope'' ''first'') ''run_id'' = Some [''nope'']
   \<and> parse_logs (\<lambda>q. q) (\<lambda>t. ''t'') example_files = Inr example_runs
   \<and> ''nope'' \<notin> run_id ` set example_runs
   \<and> do_GET (\<lambda>a b f t. []) ''<html>'' (\<lambda>q. q) (\<lambda>t. ''t'') example_files
        (diff_request ''nope'' ''first'') Map.empty
       = (Inr (Response 200 ''text/plain'' (Plain ''Run ID not found.'')), Map.empty)
   \<and> query \<lparr>self_path = ''/diff'', path = ''/diff'', query = Map.empty\<rparr> ''run_id'' = None
   \<and> do_GET (\<lambda>a b f t. []) ''<html>'' (\<lambda>q. q) (\<lambda>t. ''t'') example_files
        \<lparr>self_path = ''/diff'', path = ''/diff'', query = Map.empty\<rparr> Map.empty
       = (Inr (SendError 400 ''Bad Request: run_id parameter is missing.''), Map.empty)"
proof -
  let ?req = "diff_request ''nope'' ''first''"
  let ?bare = "\<lparr>self_path = ''/diff'', path = ''/diff'', query = Map.empty\<rparr>"
  have p: "path ?req = ''/diff''" and c: "query ?req ''compare_to'' \<noteq> Some []"
    and r: "query ?req ''run_id'' = Some [''nope'']"
    by (simp_all add: diff_request_def)
  have l: "parse_logs (\<lambda>q. q) (\<lambda>t. ''t'') example_files = Inr example_runs" by code_simp
  have n: "''nope'' \<notin> run_id ` set example_runs" by (simp add: example_runs_def)
  have p': "path ?bare = ''/diff''" and c': "query ?bare ''compare_to'' \<noteq> Some []"
    and r': "query ?bare ''run_id'' = None"
    by simp_all
  from run_id_not_found_or_missing [OF p c, of "''nope''" "[]" "\<lambda>q. q" "\<lambda>t. ''t''" example_files
      example_runs "\<lambda>a b f t. []" "''<html>''" Map.empty]
    run_id_not_found_or_missing [OF p' c', of "''nope''" "[]" "\<lambda>q. q" "\<lambda>t. ''t''" example_files
      example_runs "\<lambda>a b f t. []" "''<html>''" Map.empty]
    p c r l n r'
  show ?thesis by simp
qed

text \<open>
  C9.  An uncached diff request whose mode is neither \<open>previous\<close> nor \<open>first\<close> has no
  baseline: the label is \<open>No Run to Compare\<close>, the body is
  \<open>No run available to compare.\<close>, and the answer is the header with that label
  followed by that body.
\<close>

theorem unknown_mode_no_comparison:
  assumes "uncached_diff_request rnd fmt files req cache rid compare_to runs index"
    and "compare_to \<noteq> ''previous''" and "compare_to \<noteq> ''first''"
  shows "select_baseline runs index compare_to = ([], ''No Run to Compare'')
       \<and> diff_body udiff [] (splitlines (code (runs ! index))) ''No Run to Compare''
           = ''No run available to compare.''
       \<and> fst (do_GET udiff html rnd fmt files req cache)
           = Inr (Response 200 ''text/plain''
               (Plain (''Comparing Run '' @ rid @ '' to No Run to Compare''
                        @ [CHR 0x0A, CHR 0x0A] @ ''No run available to compare.'')))"
proof -
  have "run_id (runs ! index) = rid"
    using assms(1) find_index_Some [of rid runs index] by (simp add: uncached_diff_request_def)
  then show ?thesis
    using assms(2,3) do_GET_uncached [OF assms(1), of udiff html]
    by (simp add: select_baseline_def compute_diff_def diff_body_def)
qed

theorem unknown_mode_no_comparison_witness:
  "uncached_diff_request (\<lambda>q. q) (\<lambda>t. ''t'') example_files (diff_request ''run_a'' ''oldest'')
      Map.empty ''run_a'' ''oldest'' example_runs 0
   \<and> ''oldest'' \<noteq> ''previous'' \<and> ''oldest'' \<noteq> ''first''
   \<and> select_baseline example_runs 0 ''oldest'' = ([], ''No Run to Compare'')
   \<and> fst (do_GET (\<lambda>a b f t. []) ''<html>'' (\<lambda>q. q) (\<lambda>t. ''t'') example_files
        (diff_request ''run_a'' ''oldest'') Map.empty)
       = Inr (Response 200 ''text/plain''
           (Plain ''Comparing Run run_a to No Run to Compare\<newline>\<newline>No run available to compare.''))"
proof -
  have u: "uncached_diff_request (\<lambda>q. q) (\<lambda>t. ''t'') example_files
      (diff_request ''run_a'' ''oldest'') Map.empty ''run_a'' ''oldest'' example_runs 0"
    by code_simp
  have a: "''oldest'' \<noteq> ''previous''" and b: "''oldest'' \<noteq> ''first''" by simp_all
  from unknown_mode_no_comparison [OF u a b, of "\<lambda>a b f t. []" "''<html>''"] u a b
  show ?thesis by simp
qed

text \<open>
  C10.  An uncached diff request with mode \<open>previous\<close> or \<open>first\<close> whose baseline run
  exists and has the empty code: the label names the baseline, and the body is
  \<open>No run available to compare.\<close>, because the split code of the baseline is the
  empty list, which is what the handler tests.
\<close>

theorem empty_baseline_code_reported_as_no_run:
  assumes "uncached_diff_request rnd fmt files req cache rid compare_to runs index"
    and "compare_to = ''previous'' \<and> index + 1 < length runs \<and> code (runs ! (index + 1)) = []
         \<or> compare_to = ''first'' \<and> code (last runs) = []"
  shows "select_baseline runs index compare_to
           = ([], if compare_to = ''previous'' then ''Previous Run'' else ''First Run'')
       \<and> diff_body udiff (fst (select_baseline runs index compare_to))
           (splitlines (code (runs ! index))) (snd (select_baseline runs index compare_to))
           = ''No run available to compare.''
       \<and> fst (do_GET udiff html rnd fmt files req cache)
           = Inr (Response 200 ''text/plain''
               (Plain (''Comparing Run '' @ rid @ '' to ''
                        @ (if compare_to = ''previous'' then ''Previous Run'' else ''First Run'')
                        @ [CHR 0x0A, CHR 0x0A] @ ''No run available to compare.'')))"
proof -
  have idx: "index < length runs" and rid: "run_id (runs ! index) = rid"
    using assms(1) find_index_Some [of rid runs index]
    by (simp_all add: uncached_diff_request_def)
  have sel: "select_baseline runs index compare_to
           = ([], if compare_to = ''previous'' then ''Previous Run'' else ''First Run'')"
    using assms(2) idx by (auto simp: select_baseline_def splitlines_empty)
  show ?thesis
    using sel rid do_GET_uncached [OF assms(1), of udiff html]
    by (simp add: compute_diff_def diff_body_def)
qed

theorem empty_baseline_code_reported_as_no_run_witness:
  "uncached_diff_request (\<lambda>q. q) (\<lambda>t. ''t'') example_files (diff_request ''run_a'' ''previous'')
      Map.empty ''run_a'' ''previous'' example_runs 0
   \<and> 0 + 1 < length example_runs \<and> code (example_runs ! (0 + 1)) = []
   \<and> select_baseline example_runs 0 ''previous'' = ([], ''Previous Run'')
   \<and> fst (do_GET (\<lambda>a b f t. []) ''<html>'' (\<lambda>q. q) (\<lambda>t. ''t'') example_files
        (diff_request ''run_a'' ''previous'') Map.empty)
       = Inr (Response 200 ''text/plain''
           (Plain ''Comparing Run run_a to Previous Run\<newline>\<newline>No run available to compare.''))"
proof -
  have u: "uncached_diff_request (\<lambda>q. q) (\<lambda>t. ''t'') example_files
      (diff_request ''run_a'' ''previous'') Map.empty ''run_a'' ''previous'' example_runs 0"
    by code_simp
  have c: "0 + 1 < length example_runs \<and> code (example_runs ! (0 + 1)) = []"
    by (simp add: example_runs_def)
  then have d: "''previous'' = ''previous'' \<and> 0 + 1 < length example_runs
        \<and> code (example_runs ! (0 + 1)) = []
      \<or> ''previous'' = ''first'' \<and> code (last example_runs) = []"
    by simp
  from empty_baseline_code_reported_as_no_run [OF u d, of "\<lambda>a b f t. []" "''<html>''"] u c
  show ?thesis by simp
qed

end
